theory Spec2Isabelle
  imports Main "HOL-Library.Multiset"
begin

section \<open>Primitives of the C++ standard library used by the codec\<close>

text \<open>
  A \<open>std::string\<close> is a list of 8-bit characters. The functions below model the library
  calls the request parser makes, in the "C" locale.
\<close>

definition isspace :: "char \<Rightarrow> bool" where
  \<comment> \<open>\<open>std::isspace\<close>: space, \<open>\t\<close>, \<open>\n\<close>, \<open>\v\<close>, \<open>\f\<close>, \<open>\r\<close>.\<close>
  "isspace c = (c \<in> set [CHR '' '', CHR 0x09, CHR 0x0A, CHR 0x0B, CHR 0x0C, CHR 0x0D])"

definition toupper :: "char \<Rightarrow> char" where
  \<comment> \<open>\<open>::toupper\<close>: the letters a..z move to A..Z, every other character stays.\<close>
  "toupper c =
     (let n = (of_char c :: nat) in if 97 \<le> n \<and> n \<le> 122 then char_of (n - 32) else c)"

definition getline_delim :: "char \<Rightarrow> string \<Rightarrow> (string \<times> string) option" where
  \<comment> \<open>\<open>std::getline(stream, line, d)\<close> on the unread rest of a stream: \<open>None\<close> when nothing
     is left (the extraction fails), otherwise the characters before the first \<open>d\<close> and the
     rest after it (the delimiter is consumed and not stored).\<close>
  "getline_delim d s =
     (if s = [] then None
      else Some (takeWhile (\<lambda>c. c \<noteq> d) s, drop 1 (dropWhile (\<lambda>c. c \<noteq> d) s)))"

definition getline :: "string \<Rightarrow> (string \<times> string) option" where
  "getline s = getline_delim (CHR 0x0A) s"

definition extract_token :: "string \<Rightarrow> (string \<times> string) option" where
  \<comment> \<open>\<open>stream >> str\<close>: skips leading whitespace, then reads up to the next whitespace;
     fails (\<open>None\<close>) when no character is left to read.\<close>
  "extract_token s =
     (let s1 = dropWhile isspace s in
      if s1 = [] then None
      else Some (takeWhile (\<lambda>c. \<not> isspace c) s1, dropWhile (\<lambda>c. \<not> isspace c) s1))"

definition find_char :: "char \<Rightarrow> string \<Rightarrow> nat option" where
  \<comment> \<open>\<open>s.find(c)\<close>: the first position of \<open>c\<close>; \<open>None\<close> is \<open>std::string::npos\<close>.\<close>
  "find_char c s = (if c \<in> set s then Some (length (takeWhile (\<lambda>x. x \<noteq> c) s)) else None)"

definition strip_cr :: "string \<Rightarrow> string" where
  \<comment> \<open>\<open>if (!line.empty() && line.back() == '\r') line.pop_back();\<close>\<close>
  "strip_cr line = (if line \<noteq> [] \<and> last line = CHR 0x0D then butlast line else line)"

definition trim_blank :: "string \<Rightarrow> string" where
  \<comment> \<open>\<open>s.erase(0, s.find_first_not_of(" \t")); s.erase(s.find_last_not_of(" \t") + 1);\<close>\<close>
  "trim_blank s =
     (let blank = (\<lambda>c. c = CHR '' '' \<or> c = CHR 0x09) in
      rev (dropWhile blank (rev (dropWhile blank s))))"

definition hex_digit :: "char \<Rightarrow> nat option" where
  "hex_digit c =
     (let n = (of_char c :: nat) in
      if 48 \<le> n \<and> n \<le> 57 then Some (n - 48)
      else if 97 \<le> n \<and> n \<le> 102 then Some (n - 87)
      else if 65 \<le> n \<and> n \<le> 70 then Some (n - 55)
      else None)"

definition is_hex :: "char \<Rightarrow> bool" where
  "is_hex c = (hex_digit c \<noteq> None)"

definition hex_value :: "char \<Rightarrow> int" where
  "hex_value c = (case hex_digit c of Some d \<Rightarrow> int d | None \<Rightarrow> 0)"

definition has_0x_prefix :: "string \<Rightarrow> bool" where
  \<comment> \<open>\<open>strtol\<close> in base 16 skips a leading \<open>0x\<close> or \<open>0X\<close> only when a digit follows it.\<close>
  "has_0x_prefix s =
     (case s of
        c0 # cx # d # _ \<Rightarrow> c0 = CHR ''0'' \<and> (cx = CHR ''x'' \<or> cx = CHR ''X'') \<and> is_hex d
      | _ \<Rightarrow> False)"

definition stoi16 :: "string \<Rightarrow> int option" where
  \<comment> \<open>\<open>std::stoi(s, nullptr, 16)\<close>: leading whitespace, an optional sign, an optional
     \<open>0x\<close>, then as many hexadecimal digits as there are. \<open>None\<close> is a thrown
     \<open>std::invalid_argument\<close> (no digit) or \<open>std::out_of_range\<close> (not an \<open>int\<close>); both
     derive from \<open>std::exception\<close>.\<close>
  "stoi16 s =
     (let s1 = dropWhile isspace s;
          neg = (s1 \<noteq> [] \<and> hd s1 = CHR ''-'');
          s2 = (if s1 \<noteq> [] \<and> (hd s1 = CHR ''-'' \<or> hd s1 = CHR ''+'') then tl s1 else s1);
          s3 = (if has_0x_prefix s2 then drop 2 s2 else s2);
          ds = takeWhile is_hex s3;
          v = foldl (\<lambda>a c. 16 * a + hex_value c) 0 ds;
          r = (if neg then - v else v)
      in if ds = [] then None
         else if r < - 2147483648 \<or> 2147483647 < r then None
         else Some r)"

section \<open>The request: \<open>HttpRequest\<close>\<close>

datatype Method = GET | POST | PUT | DELETE | HEAD | OPTIONS | PATCH | UNKNOWN

record HttpRequest =
  req_method :: Method
  req_path :: string
  req_version :: string
  req_body :: string
  req_headers :: "string \<rightharpoonup> string"
  req_query_params :: "string \<rightharpoonup> string"
  req_is_valid :: bool

definition HttpRequest_default :: HttpRequest where
  \<comment> \<open>\<open>HttpRequest::HttpRequest()\<close>: the member initialisers; strings and maps start empty.\<close>
  "HttpRequest_default =
     \<lparr>req_method = UNKNOWN, req_path = [], req_version = ''HTTP/1.1'', req_body = [],
      req_headers = Map.empty, req_query_params = Map.empty, req_is_valid = False\<rparr>"

definition stringToMethod :: "string \<Rightarrow> Method" where
  "stringToMethod method_str =
     (let upper_method = map toupper method_str in
      if upper_method = ''GET'' then GET
      else if upper_method = ''POST'' then POST
      else if upper_method = ''PUT'' then PUT
      else if upper_method = ''DELETE'' then DELETE
      else if upper_method = ''HEAD'' then HEAD
      else if upper_method = ''OPTIONS'' then OPTIONS
      else if upper_method = ''PATCH'' then PATCH
      else UNKNOWN)"

fun urlDecode :: "string \<Rightarrow> string" where
  \<comment> \<open>The loop over \<open>i\<close>, as a recursion on the unread suffix \<open>encoded[i..]\<close>: the test
     \<open>i + 2 < encoded.length()\<close> says that at least two characters follow position \<open>i\<close>.
     A parsed escape skips them (\<open>i += 2\<close>); a failed one copies the \<open>%\<close> alone.\<close>
  "urlDecode [] = []"
| "urlDecode (c # cs) =
     (if c = CHR ''%'' \<and> 2 \<le> length cs then
        (case stoi16 (take 2 cs) of
           Some v \<Rightarrow> char_of v # urlDecode (drop 2 cs)
         | None \<Rightarrow> c # urlDecode cs)
      else if c = CHR ''+'' then CHR '' '' # urlDecode cs
      else c # urlDecode cs)"

lemma getline_delim_shorter:
  "getline_delim d s = Some (l, r) \<Longrightarrow> length r < length s"
proof -
  assume a: "getline_delim d s = Some (l, r)"
  then have ne: "s \<noteq> []" and r: "r = drop 1 (dropWhile (\<lambda>c. c \<noteq> d) s)"
    by (auto simp: getline_delim_def split: if_splits)
  show ?thesis
  proof (cases "dropWhile (\<lambda>c. c \<noteq> d) s")
    case Nil
    with r ne show ?thesis by simp
  next
    case (Cons x xs)
    have "length (dropWhile (\<lambda>c. c \<noteq> d) s) \<le> length s"
      by (rule length_dropWhile_le)
    with Cons r show ?thesis by simp
  qed
qed

function parseQueryParams :: "string \<Rightarrow> (string \<rightharpoonup> string) \<Rightarrow> (string \<rightharpoonup> string)" where
  \<comment> \<open>\<open>while (std::getline(stream, pair, '&'))\<close> over the unread query string; the second
     argument is \<open>query_params_\<close>.\<close>
  "parseQueryParams query_string qp =
     (case getline_delim (CHR ''&'') query_string of
        None \<Rightarrow> qp
      | Some (pair, rest) \<Rightarrow>
          (case find_char (CHR ''='') pair of
             Some eq_pos \<Rightarrow>
               parseQueryParams rest
                 (qp(urlDecode (take eq_pos pair) \<mapsto> urlDecode (drop (eq_pos + 1) pair)))
           | None \<Rightarrow> parseQueryParams rest (qp(urlDecode pair \<mapsto> []))))"
  by pat_completeness auto
termination
  by (relation "measure (\<lambda>(s, qp). length s)") (auto dest: getline_delim_shorter)

fun parseHeaders :: "string list \<Rightarrow> (string \<rightharpoonup> string) \<Rightarrow> (string \<rightharpoonup> string)" where
  "parseHeaders [] hs = hs"
| "parseHeaders (line # header_lines) hs =
     (case find_char (CHR '':'') line of
        Some colon_pos \<Rightarrow>
          parseHeaders header_lines
            (hs(trim_blank (take colon_pos line) \<mapsto> trim_blank (drop (colon_pos + 1) line)))
      | None \<Rightarrow> parseHeaders header_lines hs)"

function read_header_lines :: "string \<Rightarrow> string list \<times> string" where
  \<comment> \<open>The header loop of \<open>parse\<close>: the lines read before the first empty one (or the end
     of the input), and the unread rest of the stream.\<close>
  "read_header_lines s =
     (case getline s of
        None \<Rightarrow> ([], s)
      | Some (line, rest) \<Rightarrow>
          (if strip_cr line = [] then ([], rest)
           else (case read_header_lines rest of
                   (header_lines, rest') \<Rightarrow> (strip_cr line # header_lines, rest'))))"
  by pat_completeness auto
termination
  by (relation "measure length") (auto simp: getline_def dest: getline_delim_shorter)

function read_body :: "string \<Rightarrow> string" where
  \<comment> \<open>The body loop of \<open>parse\<close>: every remaining line, each followed by one \<open>\n\<close>.\<close>
  "read_body s =
     (case getline s of
        None \<Rightarrow> []
      | Some (line, rest) \<Rightarrow> line @ [CHR 0x0A] @ read_body rest)"
  by pat_completeness auto
termination
  by (relation "measure length") (auto simp: getline_def dest: getline_delim_shorter)

definition extract3 :: "string \<Rightarrow> (string \<times> string \<times> string) option" where
  \<comment> \<open>\<open>request_line >> method_str >> path_with_query >> version\<close>: the chain fails as soon
     as one extraction fails.\<close>
  "extract3 line =
     (case extract_token line of
        None \<Rightarrow> None
      | Some (method_str, r1) \<Rightarrow>
          (case extract_token r1 of
             None \<Rightarrow> None
           | Some (path_with_query, r2) \<Rightarrow>
               (case extract_token r2 of
                  None \<Rightarrow> None
                | Some (version, r3) \<Rightarrow> Some (method_str, path_with_query, version))))"

definition parse :: "string \<Rightarrow> HttpRequest \<Rightarrow> bool \<times> HttpRequest" where
  \<comment> \<open>\<open>HttpRequest::parse\<close>: the returned flag and the object after the call.\<close>
  "parse raw_request r =
     (if raw_request = [] then (False, r\<lparr>req_is_valid := False\<rparr>)
      else
        (case getline raw_request of
           None \<Rightarrow> (False, r\<lparr>req_is_valid := False\<rparr>)
         | Some (line0, stream1) \<Rightarrow>
             (case extract3 (strip_cr line0) of
                None \<Rightarrow> (False, r\<lparr>req_is_valid := False\<rparr>)
              | Some (method_str, path_with_query, version) \<Rightarrow>
                  if method_str = [] \<or> path_with_query = [] \<or> version = [] then
                    (False, r\<lparr>req_is_valid := False\<rparr>)
                  else if take 5 version \<noteq> ''HTTP/'' then (False, r\<lparr>req_is_valid := False\<rparr>)
                  else
                    (let r1 = r\<lparr>req_method := stringToMethod method_str, req_version := version\<rparr>;
                         r2 = (case find_char (CHR ''?'') path_with_query of
                                 Some query_pos \<Rightarrow>
                                   r1\<lparr>req_path := take query_pos path_with_query,
                                      req_query_params :=
                                        parseQueryParams (drop (query_pos + 1) path_with_query)
                                          (req_query_params r1)\<rparr>
                               | None \<Rightarrow> r1\<lparr>req_path := path_with_query\<rparr>);
                         r3 = r2\<lparr>req_path := urlDecode (req_path r2)\<rparr>;
                         (header_lines, stream2) = read_header_lines stream1;
                         r4 = r3\<lparr>req_headers := parseHeaders header_lines (req_headers r3)\<rparr>;
                         body = read_body stream2;
                         body' = (if body \<noteq> [] \<and> last body = CHR 0x0A then butlast body else body)
                     in (True, r4\<lparr>req_body := body', req_is_valid := True\<rparr>)))))"

definition HttpRequest_of :: "string \<Rightarrow> HttpRequest" where
  \<comment> \<open>\<open>HttpRequest::HttpRequest(const std::string& raw_request)\<close>.\<close>
  "HttpRequest_of raw_request = snd (parse raw_request HttpRequest_default)"

subsection \<open>Tokens of the request line\<close>

lemma extract_token_shorter:
  "extract_token s = Some (t, rest) \<Longrightarrow> length rest < length s"
proof -
  assume a: "extract_token s = Some (t, rest)"
  define s1 where "s1 = dropWhile isspace s"
  from a have ne: "s1 \<noteq> []" and rest: "rest = dropWhile (\<lambda>c. \<not> isspace c) s1"
    by (auto simp: extract_token_def s1_def Let_def split: if_splits)
  from ne obtain x xs where s1: "s1 = x # xs" by (cases s1) auto
  have "\<not> isspace x"
    using hd_dropWhile[of isspace s] ne s1 by (simp add: s1_def)
  with rest s1 have "rest = dropWhile (\<lambda>c. \<not> isspace c) xs" by simp
  then have "length rest \<le> length xs" by (simp add: length_dropWhile_le)
  moreover have "length s1 \<le> length s" by (simp add: s1_def length_dropWhile_le)
  ultimately show ?thesis using s1 by simp
qed

function tokens :: "string \<Rightarrow> string list" where
  \<comment> \<open>Every token that repeated \<open>>>\<close> extractions read from a line: its
     whitespace-separated words.\<close>
  "tokens s = (case extract_token s of None \<Rightarrow> [] | Some (t, rest) \<Rightarrow> t # tokens rest)"
  by pat_completeness auto
termination
  by (relation "measure length") (auto dest: extract_token_shorter)

definition first_line :: "string \<Rightarrow> string" where
  \<comment> \<open>The request line as \<open>parse\<close> tokenises it: the input up to its first \<open>\n\<close>, without
     a final \<open>\r\<close>.\<close>
  "first_line raw = strip_cr (takeWhile (\<lambda>c. c \<noteq> CHR 0x0A) raw)"

section \<open>The response: \<open>HttpResponse\<close>\<close>

datatype StatusCode =
  OK | CREATED | NO_CONTENT | BAD_REQUEST | UNAUTHORIZED | FORBIDDEN | NOT_FOUND
  | METHOD_NOT_ALLOWED | INTERNAL_SERVER_ERROR | NOT_IMPLEMENTED | SERVICE_UNAVAILABLE

fun status_value :: "StatusCode \<Rightarrow> nat" where
  \<comment> \<open>\<open>static_cast<int>(status_code_)\<close>: the enumerators' values.\<close>
  "status_value OK = 200"
| "status_value CREATED = 201"
| "status_value NO_CONTENT = 204"
| "status_value BAD_REQUEST = 400"
| "status_value UNAUTHORIZED = 401"
| "status_value FORBIDDEN = 403"
| "status_value NOT_FOUND = 404"
| "status_value METHOD_NOT_ALLOWED = 405"
| "status_value INTERNAL_SERVER_ERROR = 500"
| "status_value NOT_IMPLEMENTED = 501"
| "status_value SERVICE_UNAVAILABLE = 503"

fun statusCodeToString :: "StatusCode \<Rightarrow> string" where
  "statusCodeToString OK = ''OK''"
| "statusCodeToString CREATED = ''Created''"
| "statusCodeToString NO_CONTENT = ''No Content''"
| "statusCodeToString BAD_REQUEST = ''Bad Request''"
| "statusCodeToString UNAUTHORIZED = ''Unauthorized''"
| "statusCodeToString FORBIDDEN = ''Forbidden''"
| "statusCodeToString NOT_FOUND = ''Not Found''"
| "statusCodeToString METHOD_NOT_ALLOWED = ''Method Not Allowed''"
| "statusCodeToString INTERNAL_SERVER_ERROR = ''Internal Server Error''"
| "statusCodeToString NOT_IMPLEMENTED = ''Not Implemented''"
| "statusCodeToString SERVICE_UNAVAILABLE = ''Service Unavailable''"

function to_string :: "nat \<Rightarrow> string" where
  \<comment> \<open>\<open>std::to_string\<close> of a non-negative number, and \<open><<\<close> of one: its decimal digits.\<close>
  "to_string n =
     (if n < 10 then [char_of (48 + n)]
      else to_string (n div 10) @ [char_of (48 + n mod 10)])"
  by pat_completeness auto
termination
  by (relation "measure id") auto

declare to_string.simps [simp del]

definition CRLF :: string where
  "CRLF = [CHR 0x0D, CHR 0x0A]"

text \<open>
  \<open>headers_\<close> is a \<open>std::unordered_map\<close>: at most one entry per name, iterated in an
  order the library chooses from the hashes of the names. The model keeps the entries
  as a list in the order in which their names were first inserted: \<open>umap_assign\<close> is
  \<open>m[name] = value\<close>, which overwrites the entry of a known name where it stands and
  puts a new name last. This list is the map's history, not its iteration order. The
  order in which the library iterates a map with this history is a parameter of the
  model, a function on such lists; all that is known of it is that it lists the same
  entries (\<open>permutes\<close>).
\<close>

type_synonym umap_iteration = "(string \<times> string) list \<Rightarrow> (string \<times> string) list"

definition permutes :: "umap_iteration \<Rightarrow> bool" where
  \<comment> \<open>Iterating a map visits each of its entries once.\<close>
  "permutes it = (\<forall>m. mset (it m) = mset m)"

fun umap_assign :: "'k \<Rightarrow> 'v \<Rightarrow> ('k \<times> 'v) list \<Rightarrow> ('k \<times> 'v) list" where
  "umap_assign k v [] = [(k, v)]"
| "umap_assign k v ((k', v') # m) =
     (if k' = k then (k, v) # m else (k', v') # umap_assign k v m)"

record HttpResponse =
  res_status_code :: StatusCode
  res_headers :: "(string \<times> string) list"
  res_body :: string
  res_version :: string

definition HttpResponse_default :: HttpResponse where
  \<comment> \<open>\<open>HttpResponse::HttpResponse()\<close>.\<close>
  "HttpResponse_default =
     \<lparr>res_status_code = OK, res_headers = [], res_body = [], res_version = ''HTTP/1.1''\<rparr>"

definition setStatusCode :: "StatusCode \<Rightarrow> HttpResponse \<Rightarrow> HttpResponse" where
  "setStatusCode code r = r\<lparr>res_status_code := code\<rparr>"

definition getStatusText :: "HttpResponse \<Rightarrow> string" where
  "getStatusText r = statusCodeToString (res_status_code r)"

definition setHeader :: "string \<Rightarrow> string \<Rightarrow> HttpResponse \<Rightarrow> HttpResponse" where
  "setHeader name v r = r\<lparr>res_headers := umap_assign name v (res_headers r)\<rparr>"

definition getHeader :: "string \<Rightarrow> HttpResponse \<Rightarrow> string" where
  "getHeader name r = (case map_of (res_headers r) name of Some v \<Rightarrow> v | None \<Rightarrow> [])"

definition setContentLength :: "HttpResponse \<Rightarrow> HttpResponse" where
  "setContentLength r = setHeader ''Content-Length'' (to_string (length (res_body r))) r"

definition setBody :: "string \<Rightarrow> HttpResponse \<Rightarrow> HttpResponse" where
  "setBody body r = setContentLength (r\<lparr>res_body := body\<rparr>)"

definition setJsonContent :: "string \<Rightarrow> HttpResponse \<Rightarrow> HttpResponse" where
  "setJsonContent json r =
     setBody json (setHeader ''Content-Type'' ''application/json; charset=utf-8'' r)"

definition setHtmlContent :: "string \<Rightarrow> HttpResponse \<Rightarrow> HttpResponse" where
  "setHtmlContent html r =
     setBody html (setHeader ''Content-Type'' ''text/html; charset=utf-8'' r)"

definition setTextContent :: "string \<Rightarrow> HttpResponse \<Rightarrow> HttpResponse" where
  "setTextContent txt r =
     setBody txt (setHeader ''Content-Type'' ''text/plain; charset=utf-8'' r)"

definition mime_types :: "(string \<times> string) list" where
  "mime_types =
     [(''html'', ''text/html''), (''htm'', ''text/html''), (''css'', ''text/css''),
      (''js'', ''application/javascript''), (''json'', ''application/json''),
      (''xml'', ''application/xml''), (''txt'', ''text/plain''), (''png'', ''image/png''),
      (''jpg'', ''image/jpeg''), (''jpeg'', ''image/jpeg''), (''gif'', ''image/gif''),
      (''svg'', ''image/svg+xml''), (''ico'', ''image/x-icon''), (''pdf'', ''application/pdf''),
      (''zip'', ''application/zip''), (''mp4'', ''video/mp4''), (''mp3'', ''audio/mpeg''),
      (''wav'', ''audio/wav''), (''wasm'', ''application/wasm'')]"

definition getMimeType :: "string \<Rightarrow> string" where
  "getMimeType file_extension =
     (case map_of mime_types file_extension of
        Some t \<Rightarrow> t
      | None \<Rightarrow> ''application/octet-stream'')"

definition file_extension_of :: "string \<Rightarrow> string" where
  \<comment> \<open>The text after the last \<open>.\<close> of the path (\<open>find_last_of('.')\<close>), empty without one.\<close>
  "file_extension_of file_path =
     (if CHR ''.'' \<in> set file_path
      then rev (takeWhile (\<lambda>c. c \<noteq> CHR ''.'') (rev file_path))
      else [])"

definition setFileContent :: "(string \<rightharpoonup> string) \<Rightarrow> string \<Rightarrow> HttpResponse \<Rightarrow> HttpResponse" where
  \<comment> \<open>The first argument is the file system: the bytes of each file that can be opened.\<close>
  "setFileContent files file_path r =
     (case files file_path of
        None \<Rightarrow> setTextContent ''File not found'' (r\<lparr>res_status_code := NOT_FOUND\<rparr>)
      | Some content \<Rightarrow>
          setBody content
            (setHeader ''Content-Type'' (getMimeType (file_extension_of file_path)) r))"

definition enableCors :: "string \<Rightarrow> HttpResponse \<Rightarrow> HttpResponse" where
  "enableCors origin r =
     setHeader ''Access-Control-Allow-Headers'' ''Content-Type, Authorization''
       (setHeader ''Access-Control-Allow-Methods'' ''GET, POST, PUT, DELETE, OPTIONS''
          (setHeader ''Access-Control-Allow-Origin'' origin r))"

definition status_line :: "HttpResponse \<Rightarrow> string" where
  \<comment> \<open>The first \<open><<\<close> chain of \<open>toString\<close>.\<close>
  "status_line r =
     res_version r @ '' '' @ to_string (status_value (res_status_code r)) @ '' '' @
     getStatusText r @ CRLF"

definition header_line :: "string \<times> string \<Rightarrow> string" where
  "header_line h = fst h @ '': '' @ snd h @ CRLF"

definition toString :: "umap_iteration \<Rightarrow> HttpResponse \<Rightarrow> string" where
  \<comment> \<open>\<open>HttpResponse::toString() const\<close>: the status line, one line per stored header in
     the library's iteration order \<open>it\<close>, an empty line, the body.\<close>
  "toString it r =
     status_line r @ concat (map header_line (it (res_headers r))) @ CRLF @ res_body r"

definition isError :: "HttpResponse \<Rightarrow> bool" where
  "isError r = (400 \<le> status_value (res_status_code r))"

section \<open>Route patterns: \<open>std::regex\<close> on the patterns the router builds\<close>

text \<open>
  \<open>matchRoute\<close> hands a string to \<open>std::regex\<close> (ECMAScript grammar, the default). The
  model computes the ECMAScript semantics on a fragment of the grammar: a sequence of
  atoms, each an ordinary character or \<open>.\<close>, each optionally followed by one \<open>*\<close>. An
  ordinary character matches itself; \<open>.\<close> matches every character but the line
  terminators \<open>\n\<close> and \<open>\r\<close>; \<open>regex_match\<close> succeeds when the whole subject matches.
  What \<open>std::regex\<close> does with any other string (another special character, an escape, a
  group; a constructor that throws is caught and counts as no match) is a parameter
  of the model, \<open>beyond\<close>.
\<close>

datatype rx_atom = Lit char | AnyChar

definition regex_special :: "char \<Rightarrow> bool" where
  "regex_special c = (c \<in> set (''^$.*+?()[]{}|'' @ [CHR 0x5C, CHR 0x00]))"

fun ecma_fragment :: "string \<Rightarrow> (rx_atom \<times> bool) list option" where
  "ecma_fragment [] = Some []"
| "ecma_fragment (c # cs) =
     (if regex_special c \<and> c \<noteq> CHR ''.'' then None
      else if cs \<noteq> [] \<and> hd cs = CHR ''*'' then
        map_option (\<lambda>rs. ((if c = CHR ''.'' then AnyChar else Lit c), True) # rs)
          (ecma_fragment (tl cs))
      else
        map_option (\<lambda>rs. ((if c = CHR ''.'' then AnyChar else Lit c), False) # rs)
          (ecma_fragment cs))"

fun rx_atom_match :: "rx_atom \<Rightarrow> char \<Rightarrow> bool" where
  "rx_atom_match (Lit c) d = (c = d)"
| "rx_atom_match AnyChar d = (d \<noteq> CHR 0x0A \<and> d \<noteq> CHR 0x0D)"

fun rx_match :: "(rx_atom \<times> bool) list \<Rightarrow> string \<Rightarrow> bool" where
  \<comment> \<open>The flag says that the atom is starred.\<close>
  "rx_match [] s = (s = [])"
| "rx_match ((a, False) # rs) [] = False"
| "rx_match ((a, False) # rs) (d # ds) = (rx_atom_match a d \<and> rx_match rs ds)"
| "rx_match ((a, True) # rs) [] = rx_match rs []"
| "rx_match ((a, True) # rs) (d # ds) =
     (rx_match rs (d # ds) \<or> (rx_atom_match a d \<and> rx_match ((a, True) # rs) ds))"

definition std_regex_match :: "(string \<Rightarrow> string \<Rightarrow> bool) \<Rightarrow> string \<Rightarrow> string \<Rightarrow> bool" where
  \<comment> \<open>\<open>std::regex regex(regex_pattern); return std::regex_match(path, regex);\<close> inside
     its \<open>try\<close>.\<close>
  "std_regex_match beyond regex_pattern subject =
     (case ecma_fragment regex_pattern of
        Some rx \<Rightarrow> rx_match rx subject
      | None \<Rightarrow> beyond regex_pattern subject)"

definition matchRoute :: "(string \<Rightarrow> string \<Rightarrow> bool) \<Rightarrow> string \<Rightarrow> string \<Rightarrow> bool" where
  "matchRoute beyond pattern path =
     (if pattern = path then True
      else if CHR ''*'' \<in> set pattern then
        std_regex_match beyond
          (map (\<lambda>c. if c = CHR ''*'' then CHR ''.'' else c) pattern @ ''*'') path
      else False)"

fun wildcard_spec :: "string \<Rightarrow> string \<Rightarrow> bool" where
  \<comment> \<open>The specification's reading of a route pattern, for comparison with \<open>matchRoute\<close>:
     every \<open>*\<close> stands for any sequence of characters, every other character for itself,
     and the whole path must be matched.\<close>
  "wildcard_spec [] s = (s = [])"
| "wildcard_spec (p # ps) [] = (p = CHR ''*'' \<and> wildcard_spec ps [])"
| "wildcard_spec (p # ps) (d # ds) =
     (if p = CHR ''*'' then wildcard_spec ps (d # ds) \<or> wildcard_spec (p # ps) ds
      else p = d \<and> wildcard_spec ps ds)"

section \<open>The routing and middleware engine: \<open>HttpServer\<close>\<close>

text \<open>
  Handlers are user code: a handler receives the request and the shared response, may
  change the response, and either returns or throws. A thrown object is either derived
  from \<open>std::exception\<close> (it carries its \<open>what()\<close>) or it is not. The response a handler
  leaves behind is kept in both cases, since it is passed by reference.
\<close>

datatype failure = StdException string | OtherThrow

type_synonym RequestHandler =
  "HttpRequest \<Rightarrow> HttpResponse \<Rightarrow> failure option \<times> HttpResponse"

type_synonym MiddlewareFunction =
  "HttpRequest \<Rightarrow> HttpResponse \<Rightarrow> (failure + bool) \<times> HttpResponse"

type_synonym ErrorHandler =
  "string \<Rightarrow> HttpRequest \<Rightarrow> HttpResponse \<Rightarrow> failure option \<times> HttpResponse"

record Route =
  route_method :: Method
  route_path :: string
  route_handler :: RequestHandler
  is_regex :: bool

record HttpServer =
  routes :: "Route list"
  middlewares :: "MiddlewareFunction list"
  static_paths :: "(string \<times> string) list"
  not_found_handler :: RequestHandler
  error_handler :: ErrorHandler

record Platform =
  files :: "string \<rightharpoonup> string"
  regex_beyond :: "string \<Rightarrow> string \<Rightarrow> bool"
  iteration :: umap_iteration

definition defaultNotFoundHandler :: RequestHandler where
  "defaultNotFoundHandler request response =
     (None, setTextContent (''404 Not Found: '' @ req_path request)
              (setStatusCode NOT_FOUND response))"

definition defaultErrorHandler :: ErrorHandler where
  \<comment> \<open>The log line goes to the external logger and is not part of the model.\<close>
  "defaultErrorHandler what request response =
     (None, setTextContent ''Internal Server Error''
              (setStatusCode INTERNAL_SERVER_ERROR response))"

definition HttpServer_new :: HttpServer where
  \<comment> \<open>\<open>HttpServer::HttpServer()\<close>, as far as routing is concerned.\<close>
  "HttpServer_new =
     \<lparr>routes = [], middlewares = [], static_paths = [],
      not_found_handler = defaultNotFoundHandler, error_handler = defaultErrorHandler\<rparr>"

definition route :: "Method \<Rightarrow> string \<Rightarrow> RequestHandler \<Rightarrow> HttpServer \<Rightarrow> HttpServer" where
  "route m path handler srv =
     srv\<lparr>routes := routes srv @
           [\<lparr>route_method = m, route_path = path, route_handler = handler,
             is_regex = (CHR ''*'' \<in> set path \<or> CHR ''('' \<in> set path)\<rparr>]\<rparr>"

definition use :: "MiddlewareFunction \<Rightarrow> HttpServer \<Rightarrow> HttpServer" where
  "use middleware srv = srv\<lparr>middlewares := middlewares srv @ [middleware]\<rparr>"

definition serveStatic :: "string \<Rightarrow> string \<Rightarrow> HttpServer \<Rightarrow> HttpServer" where
  "serveStatic path directory srv =
     srv\<lparr>static_paths := umap_assign path directory (static_paths srv)\<rparr>"

definition setNotFoundHandler :: "RequestHandler \<Rightarrow> HttpServer \<Rightarrow> HttpServer" where
  "setNotFoundHandler handler srv = srv\<lparr>not_found_handler := handler\<rparr>"

definition setErrorHandler :: "ErrorHandler \<Rightarrow> HttpServer \<Rightarrow> HttpServer" where
  "setErrorHandler handler srv = srv\<lparr>error_handler := handler\<rparr>"

fun runMiddlewares ::
  "MiddlewareFunction list \<Rightarrow> HttpRequest \<Rightarrow> HttpResponse \<Rightarrow> (failure + bool) \<times> HttpResponse"
where
  "runMiddlewares [] request response = (Inr True, response)"
| "runMiddlewares (middleware # ms) request response =
     (case middleware request response of
        (Inl e, response') \<Rightarrow> (Inl e, response')
      | (Inr False, response') \<Rightarrow> (Inr False, response')
      | (Inr True, response') \<Rightarrow> runMiddlewares ms request response')"

definition handleStaticFile :: "(string \<rightharpoonup> string) \<Rightarrow> string \<Rightarrow> HttpResponse \<Rightarrow> HttpResponse" where
  "handleStaticFile fs file_path response =
     (case fs file_path of
        None \<Rightarrow> setTextContent ''File not found'' (setStatusCode NOT_FOUND response)
      | Some content \<Rightarrow> setFileContent fs file_path response)"

fun find_static :: "(string \<times> string) list \<Rightarrow> string \<Rightarrow> (string \<times> string) option" where
  \<comment> \<open>The loop over \<open>static_paths_\<close>, given its entries in iteration order: the first
     entry whose key is a prefix of the path
     (\<open>request.getPath().find(static_path.first) == 0\<close>).\<close>
  "find_static [] path = None"
| "find_static (static_path # rest) path =
     (if take (length (fst static_path)) path = fst static_path then Some static_path
      else find_static rest path)"

fun find_route :: "(string \<Rightarrow> string \<Rightarrow> bool) \<Rightarrow> Route list \<Rightarrow> HttpRequest \<Rightarrow> Route option" where
  \<comment> \<open>The loop over \<open>routes_\<close>, up to its \<open>break\<close>: the route whose handler runs.\<close>
  "find_route beyond [] request = None"
| "find_route beyond (r # rest) request =
     (if route_method r = req_method request \<or> route_method r = OPTIONS then
        (if matchRoute beyond (route_path r) (req_path request) then Some r
         else find_route beyond rest request)
      else find_route beyond rest request)"

definition try_block ::
  "Platform \<Rightarrow> HttpServer \<Rightarrow> HttpRequest \<Rightarrow> HttpResponse \<Rightarrow> failure option \<times> HttpResponse"
where
  \<comment> \<open>The body of the \<open>try\<close> of \<open>processHttpRequest\<close>: the failure that leaves it, if any,
     and the response at that point.\<close>
  "try_block pf srv request response =
     (case runMiddlewares (middlewares srv) request response of
        (Inl e, response1) \<Rightarrow> (Some e, response1)
      | (Inr False, response1) \<Rightarrow> (None, response1)
      | (Inr True, response1) \<Rightarrow>
          (case find_static (iteration pf (static_paths srv)) (req_path request) of
             Some static_path \<Rightarrow>
               (None,
                handleStaticFile (files pf)
                  (snd static_path @ drop (length (fst static_path)) (req_path request))
                  response1)
           | None \<Rightarrow>
               (case find_route (regex_beyond pf) (routes srv) request of
                  Some r \<Rightarrow> route_handler r request response1
                | None \<Rightarrow> not_found_handler srv request response1)))"

definition processHttpRequest ::
  "Platform \<Rightarrow> HttpServer \<Rightarrow> HttpRequest \<Rightarrow> HttpResponse \<Rightarrow> failure option \<times> HttpResponse"
where
  \<comment> \<open>\<open>catch (const std::exception& e) { error_handler_(e, request, response); }\<close>: only
     a failure derived from \<open>std::exception\<close> enters the handler; a failure of the handler
     itself leaves the function.\<close>
  "processHttpRequest pf srv request response =
     (case try_block pf srv request response of
        (None, response') \<Rightarrow> (None, response')
      | (Some (StdException what), response') \<Rightarrow> error_handler srv what request response'
      | (Some OtherThrow, response') \<Rightarrow> (Some OtherThrow, response'))"

definition handleRequest :: "Platform \<Rightarrow> HttpServer \<Rightarrow> string \<Rightarrow> failure + string" where
  \<comment> \<open>\<open>HttpServer::handleRequest\<close>, the entry point of the single-threaded build: the
     bytes written to \<open>response_output\<close>, or the failure that leaves the call.\<close>
  "handleRequest pf srv raw_request =
     (case processHttpRequest pf srv (HttpRequest_of raw_request) HttpResponse_default of
        (None, response) \<Rightarrow> Inr (toString (iteration pf) response)
      | (Some e, response) \<Rightarrow> Inl e)"

section \<open>The worker pool: \<open>ThreadPool\<close>\<close>

text \<open>
  The pool is modelled as a state and the steps that change it. A step is either a call
  of the public interface (\<open>start\<close>, \<open>stop\<close>, \<open>enqueue\<close>, \<open>resize\<close>), taken as one atomic
  step, or one step of one worker thread inside \<open>workerLoop\<close>; any interleaving of these
  steps is a run.

  A task is a \<open>std::function<void()>\<close>. The model gives it a name and says what happens
  when a worker reaches \<open>if (task) { try { task(); } catch (const std::exception& e) {} }\<close>
  with it: the function is empty and nothing is called (\<open>NoTarget\<close>); the call returns
  (\<open>Returns\<close>); the call throws an exception derived from \<open>std::exception\<close>, which the
  worker swallows (\<open>ThrowsStd\<close>); or the call throws anything else (\<open>ThrowsOther\<close>), which
  no handler catches: the exception leaves the thread function and \<open>std::terminate\<close>
  ends the process. A call that never ends is not modelled.

  An element of \<open>threads_\<close> is \<open>Idle\<close> (a \<open>std::thread\<close> that is not joinable: never
  started, or joined), \<open>Waiting\<close> (a live worker at the head of its loop, waiting for the
  queue) or \<open>Running task\<close> (a live worker that has dequeued \<open>task\<close> and has not yet
  finished with it). \<open>stop\<close> returns when every worker is joined; a worker that holds a
  task finishes with it before it leaves its loop. Two fields are not in the source:
  \<open>executed\<close> logs every call of a task that has ended in the worker (by a return or by
  a swallowed exception), so that "executed once" can be stated, and \<open>crashed\<close> says that
  the process has been ended: a run has no step and no call after that, and the other
  fields of such a state say nothing about the program. Sizes are natural numbers; the
  memory a very large \<open>resize\<close> would need is not modelled.
\<close>

datatype call_outcome = NoTarget | Returns | ThrowsStd | ThrowsOther

datatype 'a Task = Task 'a call_outcome

fun outcome :: "'a Task \<Rightarrow> call_outcome" where
  "outcome (Task name c) = c"

definition completes :: "'a Task \<Rightarrow> bool" where
  \<comment> \<open>The task holds a function, and its call ends inside the worker.\<close>
  "completes task = (outcome task = Returns \<or> outcome task = ThrowsStd)"

datatype 'a worker = Idle | Waiting | Running "'a Task"

record 'a ThreadPool =
  is_running :: bool
  threads :: "'a worker list"
  tasks :: "'a Task list"
  executed :: "'a Task multiset"
  crashed :: bool

fun held :: "'a worker \<Rightarrow> 'a Task multiset" where
  "held (Running task) = {#task#}"
| "held Waiting = {#}"
| "held Idle = {#}"

definition in_flight :: "'a worker list \<Rightarrow> 'a Task multiset" where
  \<comment> \<open>The tasks that workers have dequeued and not finished with.\<close>
  "in_flight ws = sum_list (map held ws)"

definition start :: "'a ThreadPool \<Rightarrow> 'a ThreadPool" where
  \<comment> \<open>\<open>thread = std::thread(&ThreadPool::workerLoop, this)\<close> for every element of
     \<open>threads_\<close>: each becomes a live worker at the head of its loop.\<close>
  "start p =
     (if is_running p then p
      else p\<lparr>is_running := True, threads := map (\<lambda>thread. Waiting) (threads p)\<rparr>)"

definition stop :: "'a ThreadPool \<Rightarrow> 'a ThreadPool" where
  \<comment> \<open>The flag is cleared, every worker is woken and joined: a worker that holds a task
     finishes with it as in \<open>workerLoop_step\<close>, then leaves its loop. \<open>tasks_\<close> is not
     touched.\<close>
  "stop p =
     (if \<not> is_running p then p
      else p\<lparr>is_running := False,
             threads := map (\<lambda>thread. Idle) (threads p),
             executed := executed p + filter_mset completes (in_flight (threads p)),
             crashed :=
               (crashed p \<or> \<not> (filter_mset (\<lambda>task. outcome task = ThrowsOther)
                                   (in_flight (threads p)) = {#}))\<rparr>)"

definition enqueue :: "'a Task \<Rightarrow> 'a ThreadPool \<Rightarrow> 'a ThreadPool" where
  \<comment> \<open>\<open>if (!is_running_) return;\<close> then \<open>tasks_.push(std::move(task))\<close>. The wake-up of
     one worker shows in the model as that worker's next step becoming possible.\<close>
  "enqueue task p = (if \<not> is_running p then p else p\<lparr>tasks := tasks p @ [task]\<rparr>)"

definition resize :: "nat \<Rightarrow> 'a ThreadPool \<Rightarrow> 'a ThreadPool" where
  "resize new_size p =
     (let new_size' = (if new_size = 0 then 1 else new_size);
          was_running = is_running p;
          p1 = (if was_running then stop p else p);
          p2 = p1\<lparr>threads := replicate new_size' Idle\<rparr>
      in if was_running then start p2 else p2)"

definition ThreadPool_new :: "nat \<Rightarrow> 'a ThreadPool" where
  \<comment> \<open>\<open>ThreadPool::ThreadPool(size_t num_threads) : is_running_(false) { resize(num_threads); }\<close>\<close>
  "ThreadPool_new num_threads =
     resize num_threads
       \<lparr>is_running = False, threads = [], tasks = [], executed = {#}, crashed = False\<rparr>"


definition getQueueSize :: "'a ThreadPool \<Rightarrow> nat" where
  "getQueueSize p = length (tasks p)"


definition finish_task :: "nat \<Rightarrow> 'a Task \<Rightarrow> 'a ThreadPool \<Rightarrow> 'a ThreadPool" where
  \<comment> \<open>Worker \<open>i\<close> at \<open>if (task) { try { task(); } catch (const std::exception& e) {} }\<close>.\<close>
  "finish_task i task p =
     (case outcome task of
        NoTarget \<Rightarrow> p\<lparr>threads := (threads p)[i := Waiting]\<rparr>
      | Returns \<Rightarrow>
          p\<lparr>threads := (threads p)[i := Waiting], executed := add_mset task (executed p)\<rparr>
      | ThrowsStd \<Rightarrow>
          p\<lparr>threads := (threads p)[i := Waiting], executed := add_mset task (executed p)\<rparr>
      | ThrowsOther \<Rightarrow> p\<lparr>crashed := True\<rparr>)"

definition workerLoop_step :: "nat \<Rightarrow> 'a ThreadPool \<Rightarrow> 'a ThreadPool option" where
  \<comment> \<open>One step of worker \<open>i\<close> in \<open>workerLoop\<close>, \<open>None\<close> when it has none: a waiting worker
     of a running pool takes the front of a non-empty queue (and is blocked in
     \<open>condition_.wait\<close> on an empty one); a worker that holds a task finishes with it and
     returns to the head of the loop, unless the process ends.\<close>
  "workerLoop_step i p =
     (if crashed p \<or> length (threads p) \<le> i then None
      else
        (case threads p ! i of
           Idle \<Rightarrow> None
         | Waiting \<Rightarrow>
             (if \<not> is_running p then None
              else
                (case tasks p of
                   [] \<Rightarrow> None
                 | task # rest \<Rightarrow>
                     Some (p\<lparr>threads := (threads p)[i := Running task], tasks := rest\<rparr>)))
         | Running task \<Rightarrow> Some (finish_task i task p)))"

datatype 'a event = Start | Stop | Enqueue "'a Task" | Resize nat | Work nat

fun apply_event :: "'a event \<Rightarrow> 'a ThreadPool \<Rightarrow> 'a ThreadPool option" where
  \<comment> \<open>No call is made in a process that has ended.\<close>
  "apply_event Start p = (if crashed p then None else Some (start p))"
| "apply_event Stop p = (if crashed p then None else Some (stop p))"
| "apply_event (Enqueue task) p = (if crashed p then None else Some (enqueue task p))"
| "apply_event (Resize n) p = (if crashed p then None else Some (resize n p))"
| "apply_event (Work i) p = workerLoop_step i p"

fun run :: "'a event list \<Rightarrow> 'a ThreadPool \<Rightarrow> 'a ThreadPool option" where
  \<comment> \<open>A run: the steps in their order; \<open>None\<close> when a listed step is not possible.\<close>
  "run [] p = Some p"
| "run (e # es) p = (case apply_event e p of None \<Rightarrow> None | Some p' \<Rightarrow> run es p')"

definition quiescent :: "'a ThreadPool \<Rightarrow> bool" where
  \<comment> \<open>No worker has a step: nothing more happens until the next call of the interface.\<close>
  "quiescent p = list_all (\<lambda>i. workerLoop_step i p = None) [0..<length (threads p)]"

definition pool_ok :: "'a ThreadPool \<Rightarrow> bool" where
  \<comment> \<open>The states the interface produces: at least one thread; every thread live while
     the pool runs, none while it does not.\<close>
  "pool_ok p =
     (threads p \<noteq> [] \<and>
      (if is_running p then list_all (\<lambda>w. w \<noteq> Idle) (threads p)
       else list_all (\<lambda>w. w = Idle) (threads p)))"

definition pending :: "'a ThreadPool \<Rightarrow> 'a Task multiset" where
  \<comment> \<open>Every task the pool knows: executed, held by a worker, or queued.\<close>
  "pending p = executed p + in_flight (threads p) + mset (tasks p)"

definition work_left :: "'a ThreadPool \<Rightarrow> nat" where
  \<comment> \<open>The number of worker steps still to come: two for a queued task, one for a held one.\<close>
  "work_left p = 2 * length (tasks p) + size (in_flight (threads p))"

definition harmless :: "'a Task \<Rightarrow> bool" where
  \<comment> \<open>Calling the task does not end the process.\<close>
  "harmless task = (outcome task \<noteq> ThrowsOther)"

definition due :: "'a ThreadPool \<Rightarrow> 'a Task multiset" where
  \<comment> \<open>The calls that have ended in a worker, and those of the held and queued tasks
     that complete.\<close>
  "due p =
     executed p + filter_mset completes (in_flight (threads p)) +
     filter_mset completes (mset (tasks p))"

definition sound :: "'a ThreadPool \<Rightarrow> bool" where
  \<comment> \<open>The process is alive, and no held or queued task ends it.\<close>
  "sound p =
     (\<not> crashed p \<and> list_all harmless (tasks p) \<and>
      filter_mset harmless (in_flight (threads p)) = in_flight (threads p))"

fun enqueued :: "'a event list \<Rightarrow> 'a Task list" where
  \<comment> \<open>The tasks a run passes to \<open>enqueue\<close>, in order.\<close>
  "enqueued [] = []"
| "enqueued (Enqueue task # es) = task # enqueued es"
| "enqueued (e # es) = enqueued es"

fun worker_steps :: "'a event list \<Rightarrow> nat" where
  "worker_steps [] = 0"
| "worker_steps (Work i # es) = Suc (worker_steps es)"
| "worker_steps (e # es) = worker_steps es"

fun enqueue_or_work :: "'a event \<Rightarrow> bool" where
  "enqueue_or_work (Enqueue task) = True"
| "enqueue_or_work (Work i) = True"
| "enqueue_or_work e = False"

definition drain :: "nat \<Rightarrow> 'a event list" where
  \<comment> \<open>A schedule in which the first worker takes and finishes \<open>n\<close> tasks.\<close>
  "drain n = concat (replicate n [Work 0, Work 0])"

section \<open>Vocabulary of the specification and example configurations\<close>

fun literal_text :: "string \<Rightarrow> bool" where
  \<comment> \<open>The input holds nothing to decode: no \<open>+\<close>, and no \<open>%\<close> followed by two characters
     that \<open>std::stoi\<close> reads as a hexadecimal number.\<close>
  "literal_text [] = True"
| "literal_text (c # cs) =
     (\<not> (c = CHR ''%'' \<and> 2 \<le> length cs \<and> stoi16 (take 2 cs) \<noteq> None) \<and>
      c \<noteq> CHR ''+'' \<and> literal_text cs)"

inductive encodes :: "string \<Rightarrow> string \<Rightarrow> bool" where
  \<comment> \<open>\<open>encodes e t\<close>: \<open>e\<close> is a percent-encoding of the text \<open>t\<close>, in the specification's
     words: a byte is written as \<open>%\<close> and its two hexadecimal digits, a space may be
     written as \<open>+\<close>, and a character other than \<open>%\<close> and \<open>+\<close> may stand for itself.\<close>
  enc_Nil: "encodes [] []"
| enc_char: "encodes e t \<Longrightarrow> c \<noteq> CHR ''%'' \<Longrightarrow> c \<noteq> CHR ''+'' \<Longrightarrow> encodes (c # e) (c # t)"
| enc_escape: "encodes e t \<Longrightarrow> is_hex h1 \<Longrightarrow> is_hex h2 \<Longrightarrow>
     encodes (CHR ''%'' # h1 # h2 # e) (char_of (16 * hex_value h1 + hex_value h2) # t)"
| enc_plus: "encodes e t \<Longrightarrow> encodes (CHR ''+'' # e) (CHR '' '' # t)"

definition content_length_lines :: "umap_iteration \<Rightarrow> HttpResponse \<Rightarrow> string list" where
  \<comment> \<open>The lines that \<open>toString\<close> emits for the header \<open>Content-Length\<close>.\<close>
  "content_length_lines it r =
     map header_line (filter (\<lambda>h. fst h = ''Content-Length'') (it (res_headers r)))"

definition eligible_spec :: "Route list \<Rightarrow> Route \<Rightarrow> HttpRequest \<Rightarrow> bool" where
  \<comment> \<open>The method rule in the specification's words, for comparison with the test in
     \<open>find_route\<close>: the methods are equal, or the route is an \<open>OPTIONS\<close> route and the
     request's method is registered to the same path pattern.\<close>
  "eligible_spec rs r request =
     (route_method r = req_method request \<or>
      (route_method r = OPTIONS \<and>
       list_ex (\<lambda>r'. route_path r' = route_path r \<and> route_method r' = req_method request) rs))"

definition ordinary :: "char \<Rightarrow> bool" where
  \<comment> \<open>A character that means itself in a regular expression.\<close>
  "ordinary c = (\<not> regex_special c)"

definition no_regex_beyond :: "string \<Rightarrow> string \<Rightarrow> bool" where
  \<comment> \<open>An instance of the parameter of \<open>std_regex_match\<close>: no pattern outside the fragment
     matches anything.\<close>
  "no_regex_beyond regex_pattern subject = False"

definition latest_first :: umap_iteration where
  \<comment> \<open>An instance of the iteration order: the entries, the latest new name first.\<close>
  "latest_first m = rev m"

definition bare_platform :: Platform where
  "bare_platform =
     \<lparr>files = Map.empty, regex_beyond = no_regex_beyond, iteration = latest_first\<rparr>"

definition replying :: "string \<Rightarrow> RequestHandler" where
  \<comment> \<open>A handler that sets the body and returns.\<close>
  "replying txt request response = (None, setBody txt response)"

definition answering :: "string \<Rightarrow> RequestHandler" where
  \<comment> \<open>A handler that answers with a text and returns.\<close>
  "answering txt request response = (None, setTextContent txt response)"

definition throwing :: "failure \<Rightarrow> RequestHandler" where
  \<comment> \<open>A handler that sets a header and then throws.\<close>
  "throwing e request response = (Some e, setHeader ''X-Seen'' ''yes'' response)"

section \<open>Properties of the request codec\<close>

lemma extract3_None_iff: "extract3 line = None \<longleftrightarrow> length (tokens line) < 3"
proof (cases "extract_token line")
  case None
  then show ?thesis by (simp add: extract3_def)
next
  case (Some a)
  then obtain t1 r1 where 1: "extract_token line = Some (t1, r1)" by (cases a) auto
  show ?thesis
  proof (cases "extract_token r1")
    case None
    with 1 show ?thesis by (simp add: extract3_def)
  next
    case (Some b)
    then obtain t2 r2 where 2: "extract_token r1 = Some (t2, r2)" by (cases b) auto
    show ?thesis
    proof (cases "extract_token r2")
      case None
      with 1 2 show ?thesis by (simp add: extract3_def)
    next
      case (Some c)
      then obtain t3 r3 where 3: "extract_token r2 = Some (t3, r3)" by (cases c) auto
      have "tokens line = t1 # t2 # t3 # tokens r3"
        using 1 2 3 by (simp add: tokens.simps[of line] tokens.simps[of r1] tokens.simps[of r2])
      with 1 2 3 show ?thesis by (simp add: extract3_def)
    qed
  qed
qed

text \<open>
  Claim C5, as the code has it. A raw request that is empty, or whose first line holds
  fewer than three whitespace-separated tokens, makes \<open>parse\<close> return \<open>false\<close> and change
  nothing but the validity flag; a request constructed from such input therefore keeps
  the constructor's defaults: method \<open>UNKNOWN\<close>, version \<open>HTTP/1.1\<close>, and an empty path,
  body, header map and query-parameter map.
\<close>

theorem parse_too_few_tokens_keeps_defaults:
  assumes "raw = [] \<or> length (tokens (first_line raw)) < 3"
  shows "parse raw r = (False, r\<lparr>req_is_valid := False\<rparr>) \<and>
         HttpRequest_of raw =
           \<lparr>req_method = UNKNOWN, req_path = [], req_version = ''HTTP/1.1'', req_body = [],
            req_headers = Map.empty, req_query_params = Map.empty, req_is_valid = False\<rparr>"
proof -
  have p: "parse raw r' = (False, r'\<lparr>req_is_valid := False\<rparr>)" for r'
  proof (cases "raw = []")
    case True
    then show ?thesis by (simp add: parse_def)
  next
    case False
    with assms have "extract3 (first_line raw) = None" by (simp add: extract3_None_iff)
    with False show ?thesis
      by (simp add: parse_def getline_def getline_delim_def first_line_def)
  qed
  show ?thesis
    by (simp add: p HttpRequest_of_def HttpRequest_default_def)
qed

theorem parse_too_few_tokens_witness:
  "parse ''Invalid HTTP'' HttpRequest_default =
     (False, HttpRequest_default\<lparr>req_is_valid := False\<rparr>) \<and>
   HttpRequest_of ''Invalid HTTP'' =
     \<lparr>req_method = UNKNOWN, req_path = [], req_version = ''HTTP/1.1'', req_body = [],
      req_headers = Map.empty, req_query_params = Map.empty, req_is_valid = False\<rparr>"
proof -
  have "length (tokens (first_line ''Invalid HTTP'')) < 3"
    by code_simp
  then show ?thesis
    using parse_too_few_tokens_keeps_defaults[of "''Invalid HTTP''" HttpRequest_default]
    by blast
qed

text \<open>
  The claim as the specification words it fails twice. The version of a request built
  from empty input is the constructor's \<open>HTTP/1.1\<close>, not the empty string; and a first
  line of four tokens (not exactly three) is parsed as a valid request, the fourth token
  being ignored.
\<close>

theorem parse_defaults_counterexample:
  "req_version (HttpRequest_of []) = ''HTTP/1.1'' \<and>
   req_version (HttpRequest_of []) \<noteq> [] \<and>
   length (tokens (first_line ''GET / HTTP/1.1 extra'')) = 4 \<and>
   req_is_valid (HttpRequest_of ''GET / HTTP/1.1 extra'') \<and>
   req_method (HttpRequest_of ''GET / HTTP/1.1 extra'') = GET"
  by code_simp

lemma length_urlDecode: "length (urlDecode s) \<le> length s"
  by (induction s rule: urlDecode.induct) (auto split: option.splits)

lemma urlDecode_fixed_iff: "(urlDecode s = s) = literal_text s"
proof (induction s rule: urlDecode.induct)
  case 1
  then show ?case by simp
next
  case (2 c cs)
  show ?case
  proof (cases "c = CHR ''%'' \<and> 2 \<le> length cs \<and> stoi16 (take 2 cs) \<noteq> None")
    case True
    then obtain v where v: "stoi16 (take 2 cs) = Some v" by auto
    have "length (urlDecode (drop 2 cs)) \<le> length cs - 2"
      using length_urlDecode[of "drop 2 cs"] by simp
    with True have "length (urlDecode (c # cs)) < length (c # cs)"
      by (auto simp: v)
    then have "urlDecode (c # cs) \<noteq> c # cs" by auto
    with True show ?thesis by simp
  next
    case False
    show ?thesis
    proof (cases "c = CHR ''+''")
      case True
      then show ?thesis by simp
    next
      case plus: False
      from False have u: "urlDecode (c # cs) = c # urlDecode cs"
        using plus by (auto split: option.splits)
      have ih: "(urlDecode cs = cs) = literal_text cs"
      proof (cases "c = CHR ''%'' \<and> 2 \<le> length cs")
        case True
        with False have n: "stoi16 (take 2 cs) = None" by simp
        show ?thesis by (rule "2.IH"(1)[OF True n])
      next
        case F: False
        show ?thesis by (rule "2.IH"(4)[OF F plus])
      qed
      with False plus u show ?thesis by simp
    qed
  qed
qed

lemma is_hex_not_space: "is_hex c \<Longrightarrow> \<not> isspace c \<and> c \<noteq> CHR ''-'' \<and> c \<noteq> CHR ''+''"
  by (auto simp: is_hex_def isspace_def hex_digit_def)

lemma hex_value_range: "0 \<le> hex_value c \<and> hex_value c \<le> 15"
  by (auto simp: hex_value_def hex_digit_def Let_def)

lemma stoi16_two_digits:
  assumes "is_hex h1" "is_hex h2"
  shows "stoi16 [h1, h2] = Some (16 * hex_value h1 + hex_value h2)"
proof -
  from is_hex_not_space[OF assms(1)] is_hex_not_space[OF assms(2)]
  have a: "\<not> isspace h1" "h1 \<noteq> CHR ''-''" "h1 \<noteq> CHR ''+''" by simp_all
  have r: "0 \<le> 16 * hex_value h1 + hex_value h2" "16 * hex_value h1 + hex_value h2 \<le> 255"
    using hex_value_range[of h1] hex_value_range[of h2] by simp_all
  show ?thesis
    using a assms r by (simp add: stoi16_def has_0x_prefix_def Let_def)
qed

lemma urlDecode_escape:
  "is_hex h1 \<Longrightarrow> is_hex h2 \<Longrightarrow>
   urlDecode (CHR ''%'' # h1 # h2 # rest) = char_of (16 * hex_value h1 + hex_value h2) # urlDecode rest"
  by (simp add: stoi16_two_digits)

lemma encodes_decode: "encodes e t \<Longrightarrow> urlDecode e = t"
  by (induction rule: encodes.induct) (simp_all add: stoi16_two_digits)

text \<open>
  Claim C6, as the code has it. \<open>urlDecode\<close> leaves its input unchanged exactly when the
  input holds nothing to decode (no \<open>+\<close>, and no \<open>%\<close> followed by two characters read as
  a hexadecimal number); so decoding an output of decoding leaves it unchanged exactly
  when that output holds nothing to decode. It reverses encoding: \<open>%\<close> followed by two
  hexadecimal digits decodes to the byte they denote, \<open>+\<close> decodes to a space, every
  other character decodes to itself, and so every percent-encoding of a text decodes to
  that text. In particular \<open>%20\<close> and \<open>+\<close> decode to a space, and \<open>John%20Doe\<close> decodes to
  \<open>John Doe\<close>.
\<close>

theorem urlDecode_fixed_points_and_reversal:
  "(urlDecode s = s) = literal_text s \<and>
   (urlDecode (urlDecode s) = urlDecode s) = literal_text (urlDecode s) \<and>
   (is_hex h1 \<and> is_hex h2 \<longrightarrow>
      urlDecode (CHR ''%'' # h1 # h2 # rest) =
        char_of (16 * hex_value h1 + hex_value h2) # urlDecode rest) \<and>
   urlDecode (CHR ''+'' # rest) = CHR '' '' # urlDecode rest \<and>
   (c \<noteq> CHR ''%'' \<and> c \<noteq> CHR ''+'' \<longrightarrow> urlDecode (c # rest) = c # urlDecode rest) \<and>
   (encodes e t \<longrightarrow> urlDecode e = t) \<and>
   urlDecode ''%20'' = '' '' \<and>
   urlDecode ''+'' = '' '' \<and>
   urlDecode ''John%20Doe'' = ''John Doe''"
proof -
  have "urlDecode ''%20'' = '' ''" by code_simp
  moreover have "urlDecode ''+'' = '' ''" by code_simp
  moreover have "urlDecode ''John%20Doe'' = ''John Doe''" by code_simp
  moreover have "(urlDecode (urlDecode s) = urlDecode s) = literal_text (urlDecode s)"
    by (rule urlDecode_fixed_iff)
  ultimately show ?thesis
    using urlDecode_fixed_iff[of s] urlDecode_escape[of h1 h2 rest] encodes_decode[of e t]
    by simp
qed

theorem urlDecode_fixed_points_and_reversal_witness:
  "urlDecode ''100%'' = ''100%'' \<and>
   urlDecode (urlDecode ''%41%'') = urlDecode ''%41%'' \<and>
   urlDecode ''%41bc'' = ''Abc'' \<and>
   urlDecode ''Jo+'' = ''Jo '' \<and>
   encodes ''a%20b+c'' ''a b c'' \<and>
   urlDecode ''a%20b+c'' = ''a b c''"
proof -
  have l1: "literal_text ''100%''" by code_simp
  have d: "urlDecode ''%41%'' = ''A%''" by code_simp
  have l2: "literal_text (urlDecode ''%41%'')" unfolding d by code_simp
  have hx: "is_hex CHR ''4'' \<and> is_hex CHR ''1''" "is_hex CHR ''2'' \<and> is_hex CHR ''0''"
    by code_simp+
  have v: "char_of (16 * hex_value CHR ''4'' + hex_value CHR ''1'') = CHR ''A''"
    "char_of (16 * hex_value CHR ''2'' + hex_value CHR ''0'') = CHR '' ''"
    by code_simp+
  have bc: "urlDecode ''bc'' = ''bc''" "urlDecode ''o+'' = ''o ''" by code_simp+
  have "encodes ''c'' ''c''"
    by (intro encodes.intros) simp_all
  then have "encodes ''b+c'' ''b c''"
    by (intro encodes.intros) simp_all
  with hx(2) have "encodes (CHR ''%'' # CHR ''2'' # CHR ''0'' # ''b+c'')
      (char_of (16 * hex_value CHR ''2'' + hex_value CHR ''0'') # ''b c'')"
    by (intro enc_escape) simp_all
  then have "encodes ''a%20b+c'' ''a b c''"
    unfolding v by (intro enc_char) simp_all
  moreover note inst1 = urlDecode_fixed_points_and_reversal[where s = "''100%''"
      and ?h1.0 = "CHR ''4''" and ?h2.0 = "CHR ''1''" and rest = "''bc''" and c = "CHR ''J''"
      and e = "''a%20b+c''" and t = "''a b c''"]
  moreover note inst2 = urlDecode_fixed_points_and_reversal[where s = "''%41%''"
      and rest = "''o+''" and c = "CHR ''J''"]
  ultimately show ?thesis
    using l1 l2 hx(1) v(1) bc by simp
qed

text \<open>
  Decoding is not idempotent on every output of decoding: \<open>%2B\<close> decodes to \<open>+\<close>, which
  decodes again to a space.
\<close>

theorem urlDecode_idempotent_counterexample:
  "urlDecode ''%2B'' = ''+'' \<and> urlDecode (urlDecode ''%2B'') = '' '' \<and>
   urlDecode (urlDecode ''%2B'') \<noteq> urlDecode ''%2B''"
  by code_simp

section \<open>Properties of the response codec\<close>

lemma map_fst_umap_assign:
  "map fst (umap_assign k v m) = (if k \<in> fst ` set m then map fst m else map fst m @ [k])"
proof (induction m)
  case Nil
  then show ?case by simp
next
  case (Cons a m)
  obtain k' v' where a: "a = (k', v')" by (cases a)
  show ?case
  proof (cases "k' = k")
    case True
    with a show ?thesis by simp
  next
    case False
    with a Cons show ?thesis by (cases "k \<in> fst ` set m") simp_all
  qed
qed

lemma distinct_umap_assign:
  "distinct (map fst m) \<Longrightarrow> distinct (map fst (umap_assign k v m))"
  by (simp add: map_fst_umap_assign)

lemma filter_umap_assign:
  "distinct (map fst m) \<Longrightarrow> filter (\<lambda>h. fst h = k) (umap_assign k v m) = [(k, v)]"
proof (induction m)
  case Nil
  then show ?case by simp
next
  case (Cons a m)
  show ?case
  proof (cases "fst a = k")
    case True
    with Cons.prems have "k \<notin> fst ` set m" by auto
    then have "filter (\<lambda>h. fst h = k) m = []"
      by (auto simp: filter_empty_conv)
    with True show ?thesis by (cases a) simp
  next
    case False
    with Cons show ?thesis by (cases a) simp
  qed
qed

lemma map_of_umap_assign: "map_of (umap_assign k v m) = (map_of m)(k \<mapsto> v)"
  by (induction m) (auto simp: fun_eq_iff)

lemma setTextContent_facts:
  "res_body (setTextContent txt r) = txt \<and>
   res_status_code (setTextContent txt r) = res_status_code r \<and>
   res_version (setTextContent txt r) = res_version r \<and>
   getHeader ''Content-Type'' (setTextContent txt r) = ''text/plain; charset=utf-8'' \<and>
   getHeader ''Content-Length'' (setTextContent txt r) = to_string (length txt)"
  by (simp add: setTextContent_def setBody_def setContentLength_def getHeader_def setHeader_def
      map_of_umap_assign)

lemma filter_iteration_umap_assign:
  assumes "permutes it" "distinct (map fst m)"
  shows "filter (\<lambda>h. fst h = k) (it (umap_assign k v m)) = [(k, v)]"
proof -
  have "mset (filter (\<lambda>h. fst h = k) (it (umap_assign k v m))) =
        mset (filter (\<lambda>h. fst h = k) (umap_assign k v m))"
    using assms(1) by (simp add: permutes_def)
  also have "\<dots> = {#(k, v)#}"
    by (simp add: filter_umap_assign[OF assms(2)])
  finally have "mset (filter (\<lambda>h. fst h = k) (it (umap_assign k v m))) = {#(k, v)#}" .
  then show ?thesis by (rule iffD1[OF mset_single_iff])
qed

lemma iteration_Nil: "permutes it \<Longrightarrow> it [] = []"
proof -
  assume "permutes it"
  then have "mset (it []) = {#}" by (simp add: permutes_def)
  then show ?thesis by simp
qed

text \<open>
  Claim C2. Serialisation does not compute \<open>Content-Length\<close> from the body: \<open>toString\<close>
  emits the status line, exactly the stored headers, an empty line and the body, and the
  \<open>Content-Length\<close> line it emits is the stored one, whatever the body is. The stored
  value is what the caller's last action left: \<open>setHeader\<close> stores the value it is given,
  also after a \<open>setBody\<close> and when the value is not the length of the body; \<open>setBody\<close>,
  through \<open>setContentLength\<close>, stores the length of the new body; a fresh response has no
  such line. \<open>handleRequest\<close> serialises the response as the pipeline left it. This holds
  for every order in which the library iterates the headers. The hypotheses say that
  the stored header names are distinct, as they are in a \<open>std::unordered_map\<close>, and that
  iterating visits each entry once.
\<close>

theorem toString_emits_stored_content_length:
  assumes "distinct (map fst (res_headers r))" and "permutes it"
  shows "toString it r =
           status_line r @ concat (map header_line (it (res_headers r))) @ CRLF @ res_body r \<and>
         content_length_lines it (r\<lparr>res_body := b\<rparr>) = content_length_lines it r \<and>
         content_length_lines it (setHeader ''Content-Length'' v r) =
           [''Content-Length: '' @ v @ CRLF] \<and>
         content_length_lines it (setBody b r) =
           [''Content-Length: '' @ to_string (length b) @ CRLF] \<and>
         content_length_lines it (setHeader ''Content-Length'' v (setBody b r)) =
           [''Content-Length: '' @ v @ CRLF] \<and>
         content_length_lines it HttpResponse_default = [] \<and>
         (processHttpRequest pf srv (HttpRequest_of raw) HttpResponse_default = (None, r') \<longrightarrow>
            handleRequest pf srv raw = Inr (toString (iteration pf) r'))"
proof -
  have d: "distinct (map fst (res_headers (setBody b r)))"
    using assms(1)
    by (simp add: setBody_def setContentLength_def setHeader_def distinct_umap_assign)
  have 1: "content_length_lines it (setHeader ''Content-Length'' v' r') =
             [''Content-Length: '' @ v' @ CRLF]"
    if "distinct (map fst (res_headers r'))" for r' v'
    using that
    by (simp add: content_length_lines_def setHeader_def
        filter_iteration_umap_assign[OF assms(2)] header_line_def)
  have 2: "content_length_lines it (setBody b r) =
             [''Content-Length: '' @ to_string (length b) @ CRLF]"
    using 1[of "r\<lparr>res_body := b\<rparr>"] assms(1)
    by (simp add: setBody_def setContentLength_def)
  show ?thesis
    using 1[OF assms(1)] 1[OF d] 2
    by (simp add: toString_def content_length_lines_def HttpResponse_default_def
        handleRequest_def iteration_Nil[OF assms(2)])
qed

theorem toString_emits_stored_content_length_witness:
  "content_length_lines latest_first
     (setHeader ''Content-Length'' ''999'' (setBody ''hi'' HttpResponse_default)) =
     [''Content-Length: 999'' @ CRLF] \<and>
   content_length_lines latest_first (setBody ''hi'' HttpResponse_default) =
     [''Content-Length: 2'' @ CRLF] \<and>
   toString latest_first
     (setHeader ''Content-Length'' ''999'' (setBody ''hi'' HttpResponse_default)) =
     ''HTTP/1.1 200 OK'' @ CRLF @ ''Content-Length: 999'' @ CRLF @ CRLF @ ''hi'' \<and>
   handleRequest bare_platform (route GET ''/hi'' (replying ''hi'') HttpServer_new)
     ''GET /hi HTTP/1.1'' =
     Inr (''HTTP/1.1 200 OK'' @ CRLF @ ''Content-Length: 2'' @ CRLF @ CRLF @ ''hi'')"
proof -
  let ?srv = "route GET ''/hi'' (replying ''hi'') HttpServer_new"
  let ?hi = "setBody ''hi'' HttpResponse_default"
  have d: "distinct (map fst (res_headers HttpResponse_default))"
    by (simp add: HttpResponse_default_def)
  have pm: "permutes latest_first"
    by (simp add: permutes_def latest_first_def)
  have t: "to_string (length ''hi'') = ''2''" by code_simp
  have s: "toString latest_first
             (setHeader ''Content-Length'' ''999'' (setBody ''hi'' HttpResponse_default)) =
     ''HTTP/1.1 200 OK'' @ CRLF @ ''Content-Length: 999'' @ CRLF @ CRLF @ ''hi''"
    by code_simp
  have q: "req_method (HttpRequest_of ''GET /hi HTTP/1.1'') = GET"
    "req_path (HttpRequest_of ''GET /hi HTTP/1.1'') = ''/hi''"
    by code_simp+
  have pr: "processHttpRequest bare_platform ?srv (HttpRequest_of ''GET /hi HTTP/1.1'')
              HttpResponse_default = (None, ?hi)"
    by (simp add: q processHttpRequest_def try_block_def HttpServer_new_def route_def
        bare_platform_def latest_first_def matchRoute_def replying_def)
  have bytes: "toString latest_first ?hi =
     ''HTTP/1.1 200 OK'' @ CRLF @ ''Content-Length: 2'' @ CRLF @ CRLF @ ''hi''"
    by code_simp
  have ib: "iteration bare_platform = latest_first"
    by (simp add: bare_platform_def)
  from toString_emits_stored_content_length[OF d pm, where b = "''hi''" and v = "''999''"
      and pf = bare_platform and srv = ?srv and raw = "''GET /hi HTTP/1.1''" and r' = ?hi] pr
  have "content_length_lines latest_first
          (setHeader ''Content-Length'' ''999'' (setBody ''hi'' HttpResponse_default)) =
           [''Content-Length: '' @ ''999'' @ CRLF]"
    and "content_length_lines latest_first (setBody ''hi'' HttpResponse_default) =
           [''Content-Length: '' @ to_string (length ''hi'') @ CRLF]"
    and "handleRequest bare_platform ?srv ''GET /hi HTTP/1.1'' =
           Inr (toString (iteration bare_platform) ?hi)"
    by blast+
  with t s bytes ib show ?thesis by simp
qed

section \<open>Properties of the routing and middleware engine\<close>

text \<open>
  A single trailing wildcard after ordinary characters behaves as the specification
  reads it, up to line terminators: the pattern \<open>p*\<close> becomes the regular expression
  \<open>p.*\<close>, which matches the paths that start with \<open>p\<close> and go on without \<open>\n\<close> or
  \<open>\r\<close>.
\<close>

lemma ecma_fragment_ordinary:
  "list_all ordinary p \<Longrightarrow> ecma_fragment (p @ ''.*'') = Some (map (\<lambda>c. (Lit c, False)) p @ [(AnyChar, True)])"
proof (induction p)
  case Nil
  then show ?case by (simp add: regex_special_def)
next
  case (Cons c p)
  from Cons.prems have c: "\<not> regex_special c" by (simp add: ordinary_def)
  from Cons.prems have p: "list_all ordinary p" by simp
  from c have ne: "c \<noteq> CHR ''.''" "c \<noteq> CHR ''*''" by (auto simp: regex_special_def)
  have "hd (p @ ''.*'') \<noteq> CHR ''*''"
  proof (cases p)
    case Nil
    then show ?thesis by simp
  next
    case (Cons d q)
    with p have "\<not> regex_special d" by (simp add: ordinary_def)
    then have "d \<noteq> CHR ''*''" by (auto simp: regex_special_def)
    with Cons show ?thesis by simp
  qed
  with c ne Cons.IH[OF p] show ?case by simp
qed

lemma rx_match_any_star: "rx_match [(AnyChar, True)] s = list_all (\<lambda>d. d \<noteq> CHR 0x0A \<and> d \<noteq> CHR 0x0D) s"
  by (induction s) auto

lemma rx_match_literals:
  "rx_match (map (\<lambda>c. (Lit c, False)) p @ rs) s = (take (length p) s = p \<and> rx_match rs (drop (length p) s))"
proof (induction p arbitrary: s)
  case Nil
  then show ?case by simp
next
  case (Cons c p)
  then show ?case by (cases s) auto
qed

lemma matchRoute_trailing_wildcard:
  assumes "list_all ordinary p"
  shows "matchRoute beyond (p @ ''*'') path =
           (take (length p) path = p \<and>
            list_all (\<lambda>d. d \<noteq> CHR 0x0A \<and> d \<noteq> CHR 0x0D) (drop (length p) path))"
proof -
  have np: "CHR ''*'' \<notin> set p"
    using assms by (auto simp: list_all_iff ordinary_def regex_special_def)
  then have m: "map (\<lambda>c. if c = CHR ''*'' then CHR ''.'' else c) p = p"
    by (induction p) auto
  have ne: "p @ ''*'' \<noteq> path \<or> (take (length p) path = p \<and> drop (length p) path = ''*'')"
    by auto
  show ?thesis
  proof (cases "p @ ''*'' = path")
    case True
    then have "take (length p) path = p" "drop (length p) path = ''*''" by auto
    with True show ?thesis by (simp add: matchRoute_def)
  next
    case False
    then show ?thesis
      by (simp add: matchRoute_def std_regex_match_def m ecma_fragment_ordinary[OF assms]
          rx_match_literals rx_match_any_star)
  qed
qed

lemma wildcard_spec_star: "wildcard_spec ''*'' s"
  by (induction s) auto

lemma wildcard_spec_trailing:
  "CHR ''*'' \<notin> set p \<Longrightarrow> wildcard_spec (p @ ''*'') path = (take (length p) path = p)"
proof (induction p arbitrary: path)
  case Nil
  then show ?case by (simp add: wildcard_spec_star)
next
  case (Cons c p)
  then show ?case by (cases path) auto
qed

text \<open>
  Claim C3 says that a route pattern with a wildcard matches exactly the paths obtained by
  putting any sequence of characters in place of each wildcard. The code does not do
  that for an interior wildcard: \<open>matchRoute\<close> turns \<open>/a/*/b\<close> into the regular expression
  \<open>/a/./b*\<close>, in which the wildcard stands for exactly one character and the last
  character may repeat. So \<open>/a/xy/b\<close>, which the claim's reading accepts, is rejected, and
  \<open>/a/x/bb\<close>, which the claim's reading rejects, is accepted; this holds whatever
  \<open>std::regex\<close> does outside the modelled fragment.
\<close>

theorem matchRoute_interior_wildcard_diverges:
  "wildcard_spec ''/a/*/b'' ''/a/xy/b'' \<and> \<not> matchRoute beyond ''/a/*/b'' ''/a/xy/b'' \<and>
   \<not> wildcard_spec ''/a/*/b'' ''/a/x/bb'' \<and> matchRoute beyond ''/a/*/b'' ''/a/x/bb''"
  by (simp add: matchRoute_def std_regex_match_def regex_special_def)

text \<open>
  Claim C4, as the code has it. The route that handles a request is the first registered
  route whose method equals the request's method or is \<open>OPTIONS\<close>, and whose pattern
  matches the path. Hence a route registered with a method other than \<open>OPTIONS\<close> never
  handles a request of a different method, and a route registered with \<open>OPTIONS\<close> is
  eligible for a request of every method: placed first, it handles every request whose
  path its pattern matches.
\<close>

theorem find_route_method_rule:
  "find_route beyond rs request =
     List.find (\<lambda>r. (route_method r = req_method request \<or> route_method r = OPTIONS) \<and>
                    matchRoute beyond (route_path r) (req_path request)) rs \<and>
   (find_route beyond rs request = Some r \<and> route_method r \<noteq> OPTIONS \<longrightarrow>
      route_method r = req_method request) \<and>
   (route_method r' = OPTIONS \<and> matchRoute beyond (route_path r') (req_path request) \<longrightarrow>
      find_route beyond (r' # rs) request = Some r')"
proof -
  have 1: "find_route beyond rs' request =
     List.find (\<lambda>r. (route_method r = req_method request \<or> route_method r = OPTIONS) \<and>
                    matchRoute beyond (route_path r) (req_path request)) rs'" for rs'
    by (induction rs') auto
  have 2: "route_method r = req_method request"
    if "find_route beyond rs request = Some r" "route_method r \<noteq> OPTIONS"
    using that unfolding 1 by (auto simp: find_Some_iff)
  show ?thesis using 1 2 by simp
qed

theorem find_route_method_rule_witness:
  "find_route no_regex_beyond
     [\<lparr>route_method = OPTIONS, route_path = ''/x'', route_handler = answering ''preflight'',
       is_regex = False\<rparr>,
      \<lparr>route_method = GET, route_path = ''/y'', route_handler = answering ''y'',
       is_regex = False\<rparr>]
     (HttpRequest_default\<lparr>req_method := DELETE, req_path := ''/x''\<rparr>) =
   Some \<lparr>route_method = OPTIONS, route_path = ''/x'', route_handler = answering ''preflight'',
         is_regex = False\<rparr> \<and>
   find_route no_regex_beyond
     [\<lparr>route_method = GET, route_path = ''/y'', route_handler = answering ''y'',
       is_regex = False\<rparr>]
     (HttpRequest_default\<lparr>req_method := GET, req_path := ''/y''\<rparr>) =
   Some \<lparr>route_method = GET, route_path = ''/y'', route_handler = answering ''y'',
         is_regex = False\<rparr>"
proof -
  let ?o = "\<lparr>route_method = OPTIONS, route_path = ''/x'', route_handler = answering ''preflight'',
       is_regex = False\<rparr>"
  let ?g = "\<lparr>route_method = GET, route_path = ''/y'', route_handler = answering ''y'',
       is_regex = False\<rparr>"
  let ?d = "HttpRequest_default\<lparr>req_method := DELETE, req_path := ''/x''\<rparr>"
  let ?q = "HttpRequest_default\<lparr>req_method := GET, req_path := ''/y''\<rparr>"
  have a: "route_method ?o = OPTIONS \<and> matchRoute no_regex_beyond (route_path ?o) (req_path ?d)"
    by (simp add: matchRoute_def)
  have b: "find_route no_regex_beyond [?g] ?q = Some ?g"
    by (simp add: matchRoute_def)
  have c: "route_method ?g \<noteq> OPTIONS" by simp
  from find_route_method_rule[of no_regex_beyond "[?g]" ?d ?g ?o] a
  have 1: "find_route no_regex_beyond [?o, ?g] ?d = Some ?o" by blast
  from find_route_method_rule[of no_regex_beyond "[?g]" ?q ?g ?o] b c
  have "route_method ?g = req_method ?q" by blast
  with 1 b show ?thesis by simp
qed

text \<open>
  The claim as the specification words it lets an \<open>OPTIONS\<close> route match only requests
  whose method is registered to the same path pattern. The code has no such condition:
  with the single route \<open>OPTIONS /x\<close>, a \<open>DELETE /x\<close> request (no \<open>DELETE\<close> route exists)
  is handled by the \<open>OPTIONS\<close> handler.
\<close>

theorem options_route_any_method_counterexample:
  "req_method (HttpRequest_of ''DELETE /x HTTP/1.1'') = DELETE \<and>
   map_option route_method
     (find_route no_regex_beyond (routes (route OPTIONS ''/x'' (answering ''preflight'') HttpServer_new))
        (HttpRequest_of ''DELETE /x HTTP/1.1'')) = Some OPTIONS \<and>
   \<not> eligible_spec (routes (route OPTIONS ''/x'' (answering ''preflight'') HttpServer_new))
        (hd (routes (route OPTIONS ''/x'' (answering ''preflight'') HttpServer_new)))
        (HttpRequest_of ''DELETE /x HTTP/1.1'') \<and>
   res_body (snd (processHttpRequest bare_platform
        (route OPTIONS ''/x'' (answering ''preflight'') HttpServer_new)
        (HttpRequest_of ''DELETE /x HTTP/1.1'') HttpResponse_default)) = ''preflight''"
proof -
  have p: "req_method (HttpRequest_of ''DELETE /x HTTP/1.1'') = DELETE"
     "req_path (HttpRequest_of ''DELETE /x HTTP/1.1'') = ''/x''"
    by code_simp+
  show ?thesis
    by (simp add: p route_def HttpServer_new_def eligible_spec_def matchRoute_def
        processHttpRequest_def try_block_def bare_platform_def latest_first_def answering_def
        HttpResponse_default_def
        setTextContent_def setBody_def setContentLength_def setHeader_def)
qed

lemma try_block_sources:
  "try_block pf srv request response = (Some e, response') \<longleftrightarrow>
     (runMiddlewares (middlewares srv) request response = (Inl e, response') \<or>
      (\<exists>response1. runMiddlewares (middlewares srv) request response = (Inr True, response1) \<and>
         find_static (iteration pf (static_paths srv)) (req_path request) = None \<and>
         (case find_route (regex_beyond pf) (routes srv) request of
            Some r \<Rightarrow> route_handler r request response1 = (Some e, response')
          | None \<Rightarrow> not_found_handler srv request response1 = (Some e, response'))))"
  by (auto simp: try_block_def split: prod.splits sum.splits bool.splits option.splits)

text \<open>
  Claim C8, as the code has it. A failure leaves the \<open>try\<close> block exactly when a
  middleware, the matched route handler or the not-found handler raised it. If it is
  derived from \<open>std::exception\<close>, it is passed to the error handler, whose outcome is
  the outcome of \<open>processHttpRequest\<close>. With the default error handler nothing propagates:
  the response has status \<open>INTERNAL_SERVER_ERROR\<close>, the plain-text body
  \<open>Internal Server Error\<close> with its content type and length, and serialises, in whatever
  order the headers are iterated, to a status line, the headers, an empty line and that
  body; \<open>handleRequest\<close> returns these bytes.
\<close>

theorem std_exception_reaches_error_handler:
  "((try_block pf srv request response = (Some e, response')) =
      (runMiddlewares (middlewares srv) request response = (Inl e, response') \<or>
       (\<exists>response1.
          runMiddlewares (middlewares srv) request response = (Inr True, response1) \<and>
          find_static (iteration pf (static_paths srv)) (req_path request) = None \<and>
          (case find_route (regex_beyond pf) (routes srv) request of
             Some r \<Rightarrow> route_handler r request response1 = (Some e, response')
           | None \<Rightarrow> not_found_handler srv request response1 = (Some e, response'))))) \<and>
   (try_block pf srv request response = (Some (StdException what), response') \<longrightarrow>
      processHttpRequest pf srv request response =
        error_handler srv what request response') \<and>
   (try_block pf srv request response = (Some (StdException what), response') \<and>
    error_handler srv = defaultErrorHandler \<longrightarrow>
      (\<exists>r. processHttpRequest pf srv request response = (None, r) \<and>
           res_status_code r = INTERNAL_SERVER_ERROR \<and>
           res_body r = ''Internal Server Error'' \<and>
           getHeader ''Content-Type'' r = ''text/plain; charset=utf-8'' \<and>
           getHeader ''Content-Length'' r = ''21'' \<and>
           toString it r =
             res_version response' @ '' 500 Internal Server Error'' @ CRLF @
             concat (map header_line (it (res_headers r))) @ CRLF @
             ''Internal Server Error'')) \<and>
   (try_block pf srv (HttpRequest_of raw) HttpResponse_default =
      (Some (StdException what), response') \<and>
    error_handler srv = defaultErrorHandler \<longrightarrow>
      handleRequest pf srv raw =
        Inr (toString (iteration pf)
               (setTextContent ''Internal Server Error''
                  (setStatusCode INTERNAL_SERVER_ERROR response'))))"
proof -
  let ?r = "setTextContent ''Internal Server Error''
              (setStatusCode INTERNAL_SERVER_ERROR response')"
  have 1: "processHttpRequest pf srv rq rs = error_handler srv what rq response'"
    if "try_block pf srv rq rs = (Some (StdException what), response')" for rq rs
    using that by (simp add: processHttpRequest_def)
  have l: "to_string (length ''Internal Server Error'') = ''21''"
    by code_simp
  have f: "res_status_code ?r = INTERNAL_SERVER_ERROR \<and>
           res_body ?r = ''Internal Server Error'' \<and>
           getHeader ''Content-Type'' ?r = ''text/plain; charset=utf-8'' \<and>
           getHeader ''Content-Length'' ?r = ''21''"
    using setTextContent_facts[of "''Internal Server Error''"
        "setStatusCode INTERNAL_SERVER_ERROR response'"] l
    by (simp add: setStatusCode_def)
  have v: "res_version ?r = res_version response'"
    using setTextContent_facts[of "''Internal Server Error''"
        "setStatusCode INTERNAL_SERVER_ERROR response'"]
    by (simp add: setStatusCode_def)
  have t: "toString it ?r =
             res_version response' @ '' 500 Internal Server Error'' @ CRLF @
             concat (map header_line (it (res_headers ?r))) @ CRLF @ ''Internal Server Error''"
  proof -
    have "to_string (status_value INTERNAL_SERVER_ERROR) = ''500''" by code_simp
    with f v show ?thesis
      by (simp add: toString_def status_line_def getStatusText_def)
  qed
  have 2: "processHttpRequest pf srv rq rs = (None, ?r)"
    if "try_block pf srv rq rs = (Some (StdException what), response')"
      "error_handler srv = defaultErrorHandler" for rq rs
    using 1[OF that(1)] that(2) by (simp add: defaultErrorHandler_def)
  have 3: "handleRequest pf srv raw = Inr (toString (iteration pf) ?r)"
    if "try_block pf srv (HttpRequest_of raw) HttpResponse_default =
          (Some (StdException what), response')"
      "error_handler srv = defaultErrorHandler"
    using 2[OF that] by (simp add: handleRequest_def)
  have 0: "(try_block pf srv request response = (Some e, response')) =
      (runMiddlewares (middlewares srv) request response = (Inl e, response') \<or>
       (\<exists>response1.
          runMiddlewares (middlewares srv) request response = (Inr True, response1) \<and>
          find_static (iteration pf (static_paths srv)) (req_path request) = None \<and>
          (case find_route (regex_beyond pf) (routes srv) request of
             Some r \<Rightarrow> route_handler r request response1 = (Some e, response')
           | None \<Rightarrow> not_found_handler srv request response1 = (Some e, response'))))"
    by (rule try_block_sources)
  have rest: "(try_block pf srv request response = (Some (StdException what), response') \<longrightarrow>
      processHttpRequest pf srv request response =
        error_handler srv what request response') \<and>
   (try_block pf srv request response = (Some (StdException what), response') \<and>
    error_handler srv = defaultErrorHandler \<longrightarrow>
      (\<exists>r. processHttpRequest pf srv request response = (None, r) \<and>
           res_status_code r = INTERNAL_SERVER_ERROR \<and>
           res_body r = ''Internal Server Error'' \<and>
           getHeader ''Content-Type'' r = ''text/plain; charset=utf-8'' \<and>
           getHeader ''Content-Length'' r = ''21'' \<and>
           toString it r =
             res_version response' @ '' 500 Internal Server Error'' @ CRLF @
             concat (map header_line (it (res_headers r))) @ CRLF @
             ''Internal Server Error'')) \<and>
   (try_block pf srv (HttpRequest_of raw) HttpResponse_default =
      (Some (StdException what), response') \<and>
    error_handler srv = defaultErrorHandler \<longrightarrow>
      handleRequest pf srv raw =
        Inr (toString (iteration pf)
               (setTextContent ''Internal Server Error''
                  (setStatusCode INTERNAL_SERVER_ERROR response'))))"
    using 1 2 3 f t by blast
  from 0 rest show ?thesis by (rule conjI)
qed

theorem std_exception_reaches_error_handler_witness:
  "fst (processHttpRequest bare_platform
          (route GET ''/boom'' (throwing (StdException ''oops'')) HttpServer_new)
          (HttpRequest_of ''GET /boom HTTP/1.1'') HttpResponse_default) = None \<and>
   res_status_code (snd (processHttpRequest bare_platform
          (route GET ''/boom'' (throwing (StdException ''oops'')) HttpServer_new)
          (HttpRequest_of ''GET /boom HTTP/1.1'') HttpResponse_default)) = INTERNAL_SERVER_ERROR \<and>
   (\<exists>hs. mset hs =
           {#(''X-Seen'', ''yes''), (''Content-Type'', ''text/plain; charset=utf-8''),
             (''Content-Length'', ''21'')#} \<and>
         handleRequest bare_platform
           (route GET ''/boom'' (throwing (StdException ''oops'')) HttpServer_new)
           ''GET /boom HTTP/1.1'' =
         Inr (''HTTP/1.1 500 Internal Server Error'' @ CRLF @ concat (map header_line hs) @
              CRLF @ ''Internal Server Error''))"
proof -
  let ?srv = "route GET ''/boom'' (throwing (StdException ''oops'')) HttpServer_new"
  let ?req = "HttpRequest_of ''GET /boom HTTP/1.1''"
  let ?resp = "setHeader ''X-Seen'' ''yes'' HttpResponse_default"
  let ?R = "setTextContent ''Internal Server Error'' (setStatusCode INTERNAL_SERVER_ERROR ?resp)"
  have p: "req_method ?req = GET" "req_path ?req = ''/boom''"
    by code_simp+
  have tb: "try_block bare_platform ?srv ?req HttpResponse_default =
              (Some (StdException ''oops''), ?resp)"
    by (simp add: p route_def HttpServer_new_def matchRoute_def try_block_def throwing_def
        bare_platform_def latest_first_def)
  have eh: "error_handler ?srv = defaultErrorHandler"
    by (simp add: route_def HttpServer_new_def)
  have hd: "res_headers ?R =
      [(''X-Seen'', ''yes''), (''Content-Type'', ''text/plain; charset=utf-8''),
       (''Content-Length'', ''21'')]"
    by code_simp
  have sl: "status_line ?R = ''HTTP/1.1 500 Internal Server Error'' @ CRLF"
    "res_body ?R = ''Internal Server Error''"
    by code_simp+
  note inst = std_exception_reaches_error_handler[where pf = bare_platform and srv = ?srv
      and request = ?req and response = HttpResponse_default
      and what = "''oops''" and response' = ?resp and raw = "''GET /boom HTTP/1.1''"]
  from inst tb eh
  obtain r where r: "processHttpRequest bare_platform ?srv ?req HttpResponse_default = (None, r)"
    and st: "res_status_code r = INTERNAL_SERVER_ERROR"
    by blast
  from inst tb eh
  have h: "handleRequest bare_platform ?srv ''GET /boom HTTP/1.1'' =
        Inr (toString (iteration bare_platform) ?R)"
    by blast
  define hs where "hs = iteration bare_platform (res_headers ?R)"
  have m: "mset hs =
           {#(''X-Seen'', ''yes''), (''Content-Type'', ''text/plain; charset=utf-8''),
             (''Content-Length'', ''21'')#}"
    unfolding hs_def hd by (simp add: bare_platform_def latest_first_def)
  have "toString (iteration bare_platform) ?R =
          ''HTTP/1.1 500 Internal Server Error'' @ CRLF @ concat (map header_line hs) @
              CRLF @ ''Internal Server Error''"
    unfolding toString_def sl hs_def by simp
  with h m r st show ?thesis by auto
qed

text \<open>
  A failure that is not derived from \<open>std::exception\<close> is not caught: with the default
  error handler, a route handler that throws such an object makes \<open>processHttpRequest\<close>
  and \<open>handleRequest\<close> end with that failure, and no response is produced.
\<close>

theorem non_std_failure_propagates_counterexample:
  "error_handler (route GET ''/boom'' (throwing OtherThrow) HttpServer_new) = defaultErrorHandler \<and>
   fst (processHttpRequest bare_platform (route GET ''/boom'' (throwing OtherThrow) HttpServer_new)
        (HttpRequest_of ''GET /boom HTTP/1.1'') HttpResponse_default) = Some OtherThrow \<and>
   handleRequest bare_platform (route GET ''/boom'' (throwing OtherThrow) HttpServer_new)
        ''GET /boom HTTP/1.1'' = Inl OtherThrow"
proof -
  have p: "req_method (HttpRequest_of ''GET /boom HTTP/1.1'') = GET"
     "req_path (HttpRequest_of ''GET /boom HTTP/1.1'') = ''/boom''"
    by code_simp+
  show ?thesis
    by (simp add: p route_def HttpServer_new_def matchRoute_def handleRequest_def
        processHttpRequest_def try_block_def bare_platform_def latest_first_def throwing_def)
qed

section \<open>Properties of the worker pool\<close>

lemma in_flight_update:
  "i < length ws \<Longrightarrow> in_flight (ws[i := w]) + held (ws ! i) = in_flight ws + held w"
  unfolding in_flight_def
proof (induction ws arbitrary: i)
  case Nil
  then show ?case by simp
next
  case (Cons a ws)
  show ?case
  proof (cases i)
    case 0
    then show ?thesis by simp
  next
    case (Suc j)
    with Cons.prems have "j < length ws" by simp
    from Cons.IH[OF this] Suc show ?thesis by (simp add: ac_simps)
  qed
qed

lemma in_flight_take:
  "i < length ws \<Longrightarrow> ws ! i = Waiting \<Longrightarrow>
     in_flight (ws[i := Running task]) = add_mset task (in_flight ws)"
  using in_flight_update[of i ws "Running task"] by simp

lemma in_flight_finish:
  "i < length ws \<Longrightarrow> ws ! i = Running task \<Longrightarrow>
     add_mset task (in_flight (ws[i := Waiting])) = in_flight ws"
  using in_flight_update[of i ws Waiting] by simp

lemma in_flight_map_Idle [simp]: "in_flight (map (\<lambda>thread. Idle) ws) = {#}"
  by (induction ws) (simp_all add: in_flight_def)

lemma in_flight_map_Waiting [simp]: "in_flight (map (\<lambda>thread. Waiting) ws) = {#}"
  by (induction ws) (simp_all add: in_flight_def)

lemma in_flight_replicate_Idle [simp]: "in_flight (replicate n Idle) = {#}"
  by (induction n) (simp_all add: in_flight_def)

lemma in_flight_none_Running:
  "list_all (\<lambda>w. \<forall>t. w \<noteq> Running t) ws \<Longrightarrow> in_flight ws = {#}"
proof (induction ws)
  case Nil
  then show ?case by (simp add: in_flight_def)
next
  case (Cons w ws)
  then show ?case by (cases w) (auto simp: in_flight_def)
qed

lemma step_cases:
  assumes "workerLoop_step i p = Some p'"
  obtains
    (take) task rest where "\<not> crashed p" "i < length (threads p)" "threads p ! i = Waiting"
      "is_running p" "tasks p = task # rest"
      "p' = p\<lparr>threads := (threads p)[i := Running task], tasks := rest\<rparr>"
  | (finish) task where "\<not> crashed p" "i < length (threads p)" "threads p ! i = Running task"
      "p' = finish_task i task p"
  using assms
  by (auto simp: workerLoop_step_def split: if_splits worker.splits list.splits)

lemma finish_cases:
  obtains
    (skipped) "outcome task = NoTarget" "finish_task i task p = p\<lparr>threads := (threads p)[i := Waiting]\<rparr>"
  | (called) "completes task"
      "finish_task i task p =
         p\<lparr>threads := (threads p)[i := Waiting], executed := add_mset task (executed p)\<rparr>"
  | (ended) "outcome task = ThrowsOther" "finish_task i task p = p\<lparr>crashed := True\<rparr>"
  by (cases "outcome task") (auto simp: finish_task_def completes_def)

lemma step_pending:
  assumes "workerLoop_step i p = Some p'"
  shows "pending p' \<subseteq># pending p"
  using assms
proof (cases rule: step_cases)
  case (take task rest)
  then show ?thesis by (simp add: pending_def in_flight_take)
next
  case (finish task)
  have e: "in_flight (threads p) = add_mset task (in_flight ((threads p)[i := Waiting]))"
    using in_flight_finish[OF finish(2,3)] by simp
  show ?thesis
    by (cases rule: finish_cases[of task i p]) (simp_all add: finish pending_def e)
qed

lemma step_due:
  assumes "workerLoop_step i p = Some p'"
  shows "due p' = due p"
  using assms
proof (cases rule: step_cases)
  case (take task rest)
  then show ?thesis by (simp add: due_def in_flight_take)
next
  case (finish task)
  have e: "in_flight (threads p) = add_mset task (in_flight ((threads p)[i := Waiting]))"
    using in_flight_finish[OF finish(2,3)] by simp
  show ?thesis
    by (cases rule: finish_cases[of task i p])
       (simp_all add: finish due_def e completes_def)
qed

lemma step_pool_ok:
  assumes "workerLoop_step i p = Some p'" "pool_ok p"
  shows "pool_ok p'"
  using assms(1)
proof (cases rule: step_cases)
  case (take task rest)
  with assms(2) show ?thesis by (auto simp: pool_ok_def list_all_length nth_list_update)
next
  case (finish task)
  from finish(2,3) assms(2) have r: "is_running p"
    by (auto simp: pool_ok_def list_all_length split: if_splits)
  show ?thesis
    by (cases rule: finish_cases[of task i p])
       (use assms(2) r in \<open>auto simp: finish pool_ok_def list_all_length nth_list_update\<close>)
qed

lemma step_is_running:
  assumes "workerLoop_step i p = Some p'"
  shows "is_running p' = is_running p"
  using assms
proof (cases rule: step_cases)
  case (take task rest)
  then show ?thesis by simp
next
  case (finish task)
  show ?thesis by (cases rule: finish_cases[of task i p]) (simp_all add: finish)
qed

lemma step_work_left:
  assumes "workerLoop_step i p = Some p'" "\<not> crashed p'"
  shows "Suc (work_left p') = work_left p"
  using assms(1)
proof (cases rule: step_cases)
  case (take task rest)
  then show ?thesis by (simp add: work_left_def in_flight_take)
next
  case (finish task)
  have e: "in_flight (threads p) = add_mset task (in_flight ((threads p)[i := Waiting]))"
    using in_flight_finish[OF finish(2,3)] by simp
  show ?thesis
    by (cases rule: finish_cases[of task i p])
       (use assms(2) in \<open>simp_all add: finish work_left_def e\<close>)
qed

lemma sound_iff:
  "sound p \<longleftrightarrow>
     \<not> crashed p \<and> (\<forall>t \<in> set (tasks p). harmless t) \<and>
     (\<forall>t \<in># in_flight (threads p). harmless t)"
  by (simp add: sound_def list_all_iff filter_mset_eq_conv)

lemma step_sound:
  assumes "workerLoop_step i p = Some p'" "sound p"
  shows "sound p'"
  using assms(1)
proof (cases rule: step_cases)
  case (take task rest)
  with assms(2) show ?thesis by (simp add: sound_def in_flight_take)
next
  case (finish task)
  have e: "in_flight (threads p) = add_mset task (in_flight ((threads p)[i := Waiting]))"
    using in_flight_finish[OF finish(2,3)] by simp
  from assms(2) have h: "harmless task"
    and r: "\<forall>x \<in># in_flight ((threads p)[i := Waiting]). harmless x"
    by (simp_all add: sound_iff e)
  show ?thesis
    by (cases rule: finish_cases[of task i p])
       (use assms(2) h r in \<open>simp_all add: finish sound_iff harmless_def\<close>)
qed

lemma quiescent_iff: "quiescent p \<longleftrightarrow> (\<forall>i. workerLoop_step i p = None)"
proof
  assume q: "quiescent p"
  show "\<forall>i. workerLoop_step i p = None"
  proof
    fix i
    show "workerLoop_step i p = None"
    proof (cases "i < length (threads p)")
      case True
      with q show ?thesis by (simp add: quiescent_def list_all_iff)
    next
      case False
      then show ?thesis by (simp add: workerLoop_step_def)
    qed
  qed
next
  assume "\<forall>i. workerLoop_step i p = None"
  then show "quiescent p" by (simp add: quiescent_def list_all_iff)
qed

lemma quiescent_running_done:
  assumes "quiescent p" "pool_ok p" "is_running p" "\<not> crashed p"
  shows "tasks p = [] \<and> in_flight (threads p) = {#}"
proof -
  from assms(2,3) have ne: "threads p \<noteq> []" and live: "list_all (\<lambda>w. w \<noteq> Idle) (threads p)"
    by (auto simp: pool_ok_def)
  have none: "workerLoop_step i p = None" for i
    using assms(1) by (simp add: quiescent_iff)
  have w: "threads p ! i = Waiting" if "i < length (threads p)" for i
  proof (cases "threads p ! i")
    case Idle
    with live that show ?thesis by (auto simp: list_all_length)
  next
    case Waiting
    then show ?thesis .
  next
    case (Running t)
    with none[of i] that assms(4) show ?thesis by (simp add: workerLoop_step_def)
  qed
  have "in_flight (threads p) = {#}"
    by (rule in_flight_none_Running) (auto simp: list_all_length w)
  moreover have "tasks p = []"
  proof (cases "tasks p")
    case Nil
    then show ?thesis .
  next
    case (Cons t rest)
    from ne have "0 < length (threads p)" by simp
    with none[of 0] w[of 0] assms(3,4) Cons show ?thesis
      by (simp add: workerLoop_step_def)
  qed
  ultimately show ?thesis by simp
qed

lemma start_pool_ok: "pool_ok p \<Longrightarrow> pool_ok (start p)"
  by (auto simp: start_def pool_ok_def list_all_iff)

lemma stop_pool_ok: "pool_ok p \<Longrightarrow> pool_ok (stop p)"
  by (auto simp: stop_def pool_ok_def list_all_iff)

lemma enqueue_pool_ok: "pool_ok p \<Longrightarrow> pool_ok (enqueue t p)"
  by (auto simp: enqueue_def pool_ok_def)

lemma resize_pool_ok: "pool_ok (resize n p)"
  by (auto simp: resize_def start_def stop_def pool_ok_def Let_def list_all_iff)

lemma ThreadPool_new_ok: "pool_ok (ThreadPool_new n) \<and> \<not> is_running (ThreadPool_new n)"
  by (simp add: ThreadPool_new_def resize_pool_ok) (simp add: resize_def Let_def)

lemma apply_event_pool_ok: "apply_event e p = Some p' \<Longrightarrow> pool_ok p \<Longrightarrow> pool_ok p'"
  by (cases e)
     (auto simp: start_pool_ok stop_pool_ok enqueue_pool_ok resize_pool_ok step_pool_ok
           split: if_splits)

lemma run_pool_ok: "run es p = Some p' \<Longrightarrow> pool_ok p \<Longrightarrow> pool_ok p'"
proof (induction es arbitrary: p)
  case Nil
  then show ?case by simp
next
  case (Cons e es)
  then show ?case by (auto split: option.splits dest: apply_event_pool_ok)
qed

lemma enqueue_running:
  "is_running p \<Longrightarrow>
     due (enqueue t p) = due p + filter_mset completes {#t#} \<and>
     work_left (enqueue t p) = work_left p + 2 \<and> is_running (enqueue t p) \<and>
     crashed (enqueue t p) = crashed p \<and>
     (sound p \<and> harmless t \<longrightarrow> sound (enqueue t p))"
  by (simp add: enqueue_def due_def work_left_def sound_def)

lemma run_crashed: "crashed p \<Longrightarrow> run es p = Some p' \<Longrightarrow> p' = p"
  by (cases es; cases "hd es") (auto simp: workerLoop_step_def)

lemma run_sound:
  assumes "run es p = Some p'" "list_all enqueue_or_work es" "is_running p" "sound p"
    "list_all harmless (enqueued es)"
  shows "sound p'"
  using assms
proof (induction es arbitrary: p)
  case Nil
  then show ?case by simp
next
  case (Cons e es)
  show ?case
  proof (cases e)
    case (Enqueue t)
    with Cons.prems have r: "run es (enqueue t p) = Some p'"
      by (simp add: sound_def split: if_splits)
    from Cons.prems Enqueue enqueue_running[of p t]
    show ?thesis by (intro Cons.IH[OF r]) simp_all
  next
    case (Work i)
    with Cons.prems obtain q where q: "workerLoop_step i p = Some q" and r: "run es q = Some p'"
      by (auto split: option.splits)
    from step_is_running[OF q] Cons.prems(3) have "is_running q" by simp
    from Cons.IH[OF r _ this step_sound[OF q Cons.prems(4)]] Cons.prems(2,5) Work
    show ?thesis by simp
  qed (use Cons.prems in simp_all)
qed

lemma run_accounting:
  assumes "run es p = Some p'" "list_all enqueue_or_work es" "is_running p" "\<not> crashed p'"
  shows "due p' = due p + filter_mset completes (mset (enqueued es)) \<and>
         work_left p' + worker_steps es = work_left p + 2 * length (enqueued es) \<and>
         is_running p'"
  using assms
proof (induction es arbitrary: p)
  case Nil
  then show ?case by simp
next
  case (Cons e es)
  show ?case
  proof (cases e)
    case (Enqueue t)
    with Cons.prems have r: "run es (enqueue t p) = Some p'"
      by (simp split: if_splits)
    from Cons.IH[OF r] Cons.prems(2,3,4) enqueue_running[of p t] Enqueue
    show ?thesis by simp
  next
    case (Work i)
    with Cons.prems obtain q where q: "workerLoop_step i p = Some q" and r: "run es q = Some p'"
      by (auto split: option.splits)
    have nq: "\<not> crashed q"
    proof
      assume "crashed q"
      from run_crashed[OF this r] Cons.prems(4) this show False by simp
    qed
    from step_is_running[OF q] Cons.prems(3) have "is_running q" by simp
    from Cons.IH[OF r _ this Cons.prems(4)] Cons.prems(2) step_due[OF q] step_work_left[OF q nq] Work
    show ?thesis by simp
  qed (use Cons.prems in simp_all)
qed

lemma run_append:
  "run (es @ es') p = (case run es p of None \<Rightarrow> None | Some q \<Rightarrow> run es' q)"
  by (induction es arbitrary: p) (auto split: option.splits)

lemma drain_run:
  assumes "is_running p" "threads p \<noteq> []" "threads p ! 0 = Waiting" "\<not> crashed p"
    "list_all harmless (tasks p)"
  shows "run (drain (length (tasks p))) p =
           Some (p\<lparr>tasks := [], executed := executed p + filter_mset completes (mset (tasks p))\<rparr>)"
  using assms
proof (induction "tasks p" arbitrary: p)
  case Nil
  then show ?case by (simp add: drain_def)
next
  case (Cons t rest)
  define q where
    "q = p\<lparr>tasks := rest, executed := executed p + filter_mset completes {#t#}\<rparr>"
  have t: "tasks p = t # rest" using Cons.hyps(2) by simp
  have l: "0 < length (threads p)" using Cons.prems(2) by simp
  have h: "harmless t" using Cons.prems(5) t by simp
  have one: "workerLoop_step 0 p = Some (p\<lparr>threads := (threads p)[0 := Running t], tasks := rest\<rparr>)"
    using t l Cons.prems by (simp add: workerLoop_step_def)
  have fin: "finish_task 0 t (p\<lparr>threads := (threads p)[0 := Running t], tasks := rest\<rparr>) = q"
    using h l Cons.prems(3)
    by (cases "outcome t")
       (simp_all add: finish_task_def q_def harmless_def completes_def list_update_same_conv)
  have two: "run [Work 0, Work 0] p = Some q"
    using one l Cons.prems(4) fin by (simp add: workerLoop_step_def)
  have ih: "run (drain (length (tasks q))) q =
          Some (q\<lparr>tasks := [], executed := executed q + filter_mset completes (mset (tasks q))\<rparr>)"
    by (rule Cons.hyps(1)) (use Cons.prems t in \<open>simp_all add: q_def\<close>)
  have d: "drain (length (tasks p)) = [Work 0, Work 0] @ drain (length rest)"
    by (simp add: t drain_def)
  have "run (drain (length (tasks p))) p = run (drain (length rest)) q"
    unfolding d run_append two by simp
  with ih show ?case by (simp add: q_def t ac_simps)
qed

lemma run_enqueues:
  "is_running p \<Longrightarrow> \<not> crashed p \<Longrightarrow>
     run (map Enqueue ts) p = Some (p\<lparr>tasks := tasks p @ ts\<rparr>)"
  by (induction ts arbitrary: p) (simp_all add: enqueue_def)

lemma run_enqueues_stopped:
  "\<not> is_running p \<Longrightarrow> \<not> crashed p \<Longrightarrow> run (map Enqueue ts) p = Some p"
  by (induction ts arbitrary: p) (simp_all add: enqueue_def)

lemma started_facts:
  "is_running (start p) \<and> tasks (start p) = tasks p \<and> executed (start p) = executed p \<and>
   crashed (start p) = crashed p"
  by (simp add: start_def)

lemma start_stopped:
  "\<not> is_running p \<Longrightarrow>
     due (start p) = executed p + filter_mset completes (mset (tasks p)) \<and>
     work_left (start p) = 2 * length (tasks p) \<and>
     in_flight (threads (start p)) = {#} \<and>
     (threads p \<noteq> [] \<longrightarrow> threads (start p) \<noteq> [] \<and> threads (start p) ! 0 = Waiting)"
  by (simp add: start_def due_def work_left_def)

lemma new_pool_facts:
  "\<not> is_running (ThreadPool_new K) \<and> tasks (ThreadPool_new K) = [] \<and>
   executed (ThreadPool_new K) = {#} \<and> \<not> crashed (ThreadPool_new K) \<and>
   threads (ThreadPool_new K) = replicate (if K = 0 then 1 else K) Idle"
  by (simp add: ThreadPool_new_def resize_def Let_def)

lemma subset_pending_start: "pending (start p) \<subseteq># pending p"
  by (simp add: start_def pending_def)

lemma subset_pending_stop: "pending (stop p) \<subseteq># pending p"
  by (simp add: stop_def pending_def)

lemma subset_pending_resize: "pending (resize n p) \<subseteq># pending p"
proof -
  have a: "pending (q\<lparr>threads := replicate m Idle\<rparr>) \<subseteq># pending q" for q :: "'a ThreadPool" and m
    by (simp add: pending_def)
  show ?thesis
  proof (cases "is_running p")
    case True
    have "pending (start ((stop p)\<lparr>threads := replicate (if n = 0 then 1 else n) Idle\<rparr>))
            \<subseteq># pending ((stop p)\<lparr>threads := replicate (if n = 0 then 1 else n) Idle\<rparr>)"
      by (rule subset_pending_start)
    also have "\<dots> \<subseteq># pending (stop p)" by (rule a)
    also have "\<dots> \<subseteq># pending p" by (rule subset_pending_stop)
    finally show ?thesis using True by (simp add: resize_def Let_def)
  next
    case False
    then show ?thesis using a[where q = p] by (simp add: resize_def Let_def)
  qed
qed

lemma apply_event_pending:
  assumes "apply_event e p = Some p'"
  shows "pending p' \<subseteq># pending p + mset (enqueued [e])"
proof (cases e)
  case Start
  with assms show ?thesis using subset_pending_start[of p] by (auto split: if_splits)
next
  case Stop
  with assms show ?thesis using subset_pending_stop[of p] by (auto split: if_splits)
next
  case (Enqueue t)
  with assms show ?thesis by (auto simp: enqueue_def pending_def split: if_splits)
next
  case (Resize n)
  with assms show ?thesis using subset_pending_resize[of n p] by (auto split: if_splits)
next
  case (Work i)
  with assms show ?thesis by (auto simp: step_pending)
qed

lemma enqueued_Cons: "mset (enqueued (e # es)) = mset (enqueued [e]) + mset (enqueued es)"
  by (cases e) simp_all

lemma run_pending:
  "run es p = Some p' \<Longrightarrow> pending p' \<subseteq># pending p + mset (enqueued es)"
proof (induction es arbitrary: p)
  case Nil
  then show ?case by simp
next
  case (Cons e es)
  then obtain q where q: "apply_event e p = Some q" and r: "run es q = Some p'"
    by (auto split: option.splits)
  have "pending p' \<subseteq># pending q + mset (enqueued es)" by (rule Cons.IH[OF r])
  also have "\<dots> \<subseteq># pending p + mset (enqueued [e]) + mset (enqueued es)"
    using apply_event_pending[OF q] by (simp add: subset_mset.add_right_mono)
  finally show ?case by (simp add: enqueued_Cons[of e es] ac_simps)
qed

text \<open>
  Claim C1 does not hold of the code. \<open>enqueue\<close> returns at once on a pool that is not
  running, and a pool is not running before \<open>start()\<close>. So for every pool size and every
  list of tasks, enqueuing the tasks and then calling \<open>start()\<close> gives the pool that
  \<open>start()\<close> gives without them: its queue is empty, no worker has a step, and nothing
  has been executed; nothing is executed until a task is enqueued on the running pool.
  The queue size after one and after two \<open>enqueue\<close> calls on a new pool is 0 (the
  repository's test \<open>QueueSize\<close> expects 1 and 2), and of ten tasks enqueued on a pool
  of four threads before \<open>start()\<close> none is executed.
\<close>

theorem enqueue_before_start_discards_tasks:
  fixes ts :: "'a Task list" and t :: "'a Task"
  shows
  "run (map Enqueue ts @ [Start]) (ThreadPool_new K) = Some (start (ThreadPool_new K)) \<and>
   quiescent (start (ThreadPool_new K :: 'a ThreadPool)) \<and>
   tasks (start (ThreadPool_new K :: 'a ThreadPool)) = [] \<and>
   executed (start (ThreadPool_new K :: 'a ThreadPool)) = {#} \<and>
   getQueueSize (enqueue t (ThreadPool_new K)) = 0 \<and>
   getQueueSize (enqueue t (enqueue t (ThreadPool_new K))) = 0 \<and>
   run [Enqueue (Task 1 Returns), Enqueue (Task 2 Returns), Enqueue (Task 3 Returns),
        Enqueue (Task 4 Returns), Enqueue (Task 5 Returns), Enqueue (Task 6 Returns),
        Enqueue (Task 7 Returns), Enqueue (Task 8 Returns), Enqueue (Task 9 Returns),
        Enqueue (Task 10 Returns), Start] (ThreadPool_new 4) =
     Some (start (ThreadPool_new 4 :: nat ThreadPool)) \<and>
   size (executed (start (ThreadPool_new 4 :: nat ThreadPool))) = 0"
proof -
  let ?n = "ThreadPool_new K :: 'a ThreadPool"
  have n: "\<not> is_running ?n" "\<not> crashed ?n" by (simp_all add: new_pool_facts)
  have "run (map Enqueue ts @ [Start]) ?n = Some (start ?n)"
    by (simp add: run_append run_enqueues_stopped[OF n] n)
  moreover have "quiescent (start ?n)"
    by (auto simp: quiescent_def list_all_iff workerLoop_step_def start_def new_pool_facts)
  moreover have "tasks (start ?n) = []" "executed (start ?n) = {#}"
    by (simp_all add: started_facts new_pool_facts)
  moreover have "getQueueSize (enqueue t ?n) = 0" "getQueueSize (enqueue t (enqueue t ?n)) = 0"
    by (simp_all add: getQueueSize_def enqueue_def new_pool_facts)
  moreover have "run [Enqueue (Task 1 Returns), Enqueue (Task 2 Returns), Enqueue (Task 3 Returns),
        Enqueue (Task 4 Returns), Enqueue (Task 5 Returns), Enqueue (Task 6 Returns),
        Enqueue (Task 7 Returns), Enqueue (Task 8 Returns), Enqueue (Task 9 Returns),
        Enqueue (Task 10 Returns), Start] (ThreadPool_new 4) =
     Some (start (ThreadPool_new 4 :: nat ThreadPool))"
    by (simp add: enqueue_def new_pool_facts)
  moreover have "size (executed (start (ThreadPool_new 4 :: nat ThreadPool))) = 0"
    by (simp add: started_facts new_pool_facts)
  ultimately show ?thesis by blast
qed

text \<open>
  What the code does instead: tasks enqueued on a started pool are run. In every run that
  begins with a started pool of any size and consists of \<open>enqueue\<close> calls and worker
  steps, if no enqueued task throws past the worker, the workers take at most two steps
  per enqueued task, the process stays alive, and once no worker has a step left the
  queue is empty and the executed tasks are exactly the enqueued ones that hold a
  function, each as often as it was enqueued. Such a complete run exists for every list
  of such tasks.
\<close>

lemma tasks_enqueued_after_start_run_once:
  assumes "run es (start (ThreadPool_new K)) = Some p" and "list_all enqueue_or_work es"
    and "list_all harmless (enqueued es)"
  shows "worker_steps es \<le> 2 * length (enqueued es) \<and> \<not> crashed p \<and>
         (quiescent p \<longrightarrow>
            executed p = filter_mset completes (mset (enqueued es)) \<and> tasks p = [])"
proof -
  let ?p0 = "start (ThreadPool_new K) :: 'a ThreadPool"
  have run0: "is_running ?p0" by (simp add: started_facts)
  have ok0: "pool_ok ?p0" by (simp add: start_pool_ok ThreadPool_new_ok)
  have st: "due ?p0 = {#}" "work_left ?p0 = 0" "in_flight (threads ?p0) = {#}"
    using start_stopped[of "ThreadPool_new K :: 'a ThreadPool"] by (simp_all add: new_pool_facts)
  have s0: "sound ?p0" by (simp add: sound_iff st started_facts new_pool_facts)
  have nc: "\<not> crashed p"
    using run_sound[OF assms(1,2) run0 s0 assms(3)] by (simp add: sound_iff)
  from run_accounting[OF assms(1,2) run0 nc] st
  have acc: "due p = filter_mset completes (mset (enqueued es))"
    "work_left p + worker_steps es = 2 * length (enqueued es)" "is_running p"
    by simp_all
  have ok: "pool_ok p" by (rule run_pool_ok[OF assms(1) ok0])
  have "executed p = filter_mset completes (mset (enqueued es)) \<and> tasks p = []" if "quiescent p"
    using quiescent_running_done[OF that ok acc(3) nc] acc(1) by (simp add: due_def)
  with acc(2) nc show ?thesis by simp
qed

lemma tasks_enqueued_after_start_complete_run:
  fixes ts :: "'a Task list"
  assumes "list_all harmless ts"
  shows "\<exists>p. run (map Enqueue ts @ drain (length ts)) (start (ThreadPool_new K)) = Some p \<and>
             quiescent p \<and> \<not> crashed p \<and> tasks p = [] \<and>
             executed p = filter_mset completes (mset ts)"
proof -
  let ?p0 = "start (ThreadPool_new K) :: 'a ThreadPool"
  have run0: "is_running ?p0" "\<not> crashed ?p0" by (simp_all add: started_facts new_pool_facts)
  have st: "threads ?p0 \<noteq> []" "threads ?p0 ! 0 = Waiting"
    using start_stopped[of "ThreadPool_new K :: 'a ThreadPool"] by (simp_all add: new_pool_facts)
  define q where "q = ?p0\<lparr>tasks := tasks ?p0 @ ts\<rparr>"
  have rq: "run (map Enqueue ts) ?p0 = Some q"
    by (simp add: run_enqueues run0 q_def)
  have tq: "tasks q = ts" by (simp add: q_def started_facts new_pool_facts)
  have "run (drain (length (tasks q))) q =
          Some (q\<lparr>tasks := [], executed := executed q + filter_mset completes (mset (tasks q))\<rparr>)"
    by (rule drain_run) (use run0 st assms tq in \<open>simp_all add: q_def\<close>)
  then have rd: "run (map Enqueue ts @ drain (length ts)) ?p0 =
          Some (q\<lparr>tasks := [], executed := executed q + filter_mset completes (mset ts)\<rparr>)"
    (is "_ = Some ?p'")
    by (simp add: run_append rq tq)
  have e: "executed ?p' = filter_mset completes (mset ts)" "tasks ?p' = []" "\<not> crashed ?p'"
    by (simp_all add: q_def started_facts new_pool_facts)
  have "is_running ?p'" "threads ?p' = threads ?p0"
    using run0 by (simp_all add: q_def)
  then have "quiescent ?p'"
    by (auto simp: quiescent_def list_all_iff workerLoop_step_def start_def new_pool_facts)
  with rd e show ?thesis by blast
qed

text \<open>
  Claim C7. \<open>enqueue\<close> appends the task to the queue if and only if the pool is running.
  On a pool that is not running it changes nothing, so every later run (restarts
  included) is the run that would have happened without the call; a task that the pool
  does not otherwise know and that is not enqueued again is never executed and never in
  the queue.
\<close>

theorem enqueue_iff_running:
  "(tasks (enqueue t p) = tasks p @ [t]) = is_running p \<and>
   (\<not> is_running p \<longrightarrow>
      enqueue t p = p \<and> run es (enqueue t p) = run es p \<and>
      (t \<notin># pending p \<and> t \<notin> set (enqueued es) \<and> run es (enqueue t p) = Some p' \<longrightarrow>
         t \<notin># executed p' \<and> t \<notin> set (tasks p')))"
proof -
  have 1: "(tasks (enqueue t p) = tasks p @ [t]) = is_running p"
    by (simp add: enqueue_def)
  have 2: "enqueue t p = p" if "\<not> is_running p"
    using that by (simp add: enqueue_def)
  have 3: "t \<notin># executed p' \<and> t \<notin> set (tasks p')"
    if "t \<notin># pending p" "t \<notin> set (enqueued es)" "run es p = Some p'"
  proof -
    from run_pending[OF that(3)] have "set_mset (pending p') \<subseteq> set_mset (pending p + mset (enqueued es))"
      by (rule set_mset_mono)
    with that(1,2) have "t \<notin># pending p'" by auto
    then show ?thesis by (simp add: pending_def)
  qed
  show ?thesis using 1 2 3 by auto
qed

theorem enqueue_iff_running_witness:
  "enqueue (Task 7 Returns) (ThreadPool_new 4) = (ThreadPool_new 4 :: nat ThreadPool) \<and>
   (\<exists>p'. run [Start, Enqueue (Task 8 Returns), Work 0, Work 0, Stop, Start]
            (enqueue (Task 7 Returns) (ThreadPool_new 4)) = Some (p' :: nat ThreadPool) \<and>
         executed p' = {#Task 8 Returns#} \<and> Task 7 Returns \<notin># executed p' \<and>
         Task 7 Returns \<notin> set (tasks p'))"
proof -
  let ?es = "[Start, Enqueue (Task 8 Returns), Work 0, Work 0, Stop, Start] :: nat event list"
  let ?p = "ThreadPool_new 4 :: nat ThreadPool"
  let ?t = "Task 7 Returns :: nat Task"
  define P :: "nat ThreadPool" where
    "P = \<lparr>is_running = True, threads = [Waiting, Waiting, Waiting, Waiting], tasks = [],
          executed = {#Task 8 Returns#}, crashed = False\<rparr>"
  have n4: "(ThreadPool_new 4 :: nat ThreadPool) =
      \<lparr>is_running = False, threads = [Idle, Idle, Idle, Idle], tasks = [], executed = {#},
       crashed = False\<rparr>"
    by (simp add: ThreadPool_new_def resize_def Let_def numeral_eq_Suc)
  have n: "\<not> is_running ?p" by (simp add: new_pool_facts)
  have pe: "?t \<notin># pending ?p" by (simp add: pending_def new_pool_facts)
  have ne: "?t \<notin> set (enqueued ?es)" by simp
  have r: "run ?es ?p = Some P"
    by (simp add: n4 start_def stop_def enqueue_def workerLoop_step_def finish_task_def P_def
        in_flight_def completes_def)
  from enqueue_iff_running[of ?t ?p ?es P] n
  have e: "enqueue ?t ?p = ?p" and same: "run ?es (enqueue ?t ?p) = run ?es ?p"
    and nev: "?t \<notin># pending ?p \<and> ?t \<notin> set (enqueued ?es) \<and> run ?es (enqueue ?t ?p) = Some P \<longrightarrow>
         ?t \<notin># executed P \<and> ?t \<notin> set (tasks P)"
    by blast+
  from same r have r': "run ?es (enqueue ?t ?p) = Some P" by simp
  with nev pe ne have "?t \<notin># executed P \<and> ?t \<notin> set (tasks P)" by blast
  moreover have "executed P = {#Task 8 Returns#}" by (simp add: P_def)
  ultimately show ?thesis using e r' by blast
qed






end
